theory Spec2Isabelle
  imports Main "HOL-Library.AList" "HOL-Library.Multiset"
begin

section \<open>Values, properties and the object heap\<close>

text \<open>
  The observer core of \<^verbatim>\<open>src/core/observer\<close> (\<^verbatim>\<open>dep.js\<close>, \<^verbatim>\<open>index.js\<close>,
  \<^verbatim>\<open>array.js\<close>) works on JavaScript objects that it mutates in place. The model keeps
  an explicit store: every object has an address, every \<^verbatim>\<open>Observer\<close>, \<^verbatim>\<open>Dep\<close> and
  \<^verbatim>\<open>defineReactive\<close> closure an identity of its own, and every function takes the state
  and returns the new one.
\<close>

type_synonym addr = nat \<comment> \<open>identity of a plain object or array\<close>
type_synonym oid = nat \<comment> \<open>identity of an \<^verbatim>\<open>Observer\<close> instance\<close>
type_synonym did = nat \<comment> \<open>identity of a \<^verbatim>\<open>Dep\<close> instance\<close>
type_synonym wid = nat \<comment> \<open>identity of a \<^verbatim>\<open>Watcher\<close> (external)\<close>
type_synonym cid = nat \<comment> \<open>identity of the closure made by one \<^verbatim>\<open>defineReactive\<close> call\<close>
type_synonym fid = nat \<comment> \<open>identity of a user function (external)\<close>

text \<open>
  A property key is either an array index or another name. \<open>Idx n\<close> stands for every
  key that JavaScript reads as the index \<open>n\<close> (the number \<open>n\<close>, the string \<open>"n"\<close>);
  \<open>Name s\<close> is a key that is not an index.
\<close>

datatype pkey = Idx nat | Name string

datatype meth = Push | Pop | Shift | Unshift | Splice | Sort | Reverse

text \<open>
  Values. Numbers are the integers and \<open>NaN\<close>, which is all the code distinguishes
  (\<^verbatim>\<open>newVal !== newVal\<close>). \<open>Method m\<close> is the intercepting \<^verbatim>\<open>mutator\<close> that
  \<^verbatim>\<open>array.js\<close> stores in \<^verbatim>\<open>arrayMethods\<close>; \<open>Native k\<close> is the member \<open>k\<close> of a
  built-in prototype; \<open>Fn f\<close> is a user function.
\<close>

datatype val =
    Undefined | Null | Bool bool | Num int | NaN | Str string
  | Ref addr | ObRef oid | Fn fid | Method meth | Native pkey

text \<open>
  An own property is a data property (value, enumerable, configurable, writable), an
  accessor property with user functions (get, set, enumerable, configurable), or the
  accessor pair that \<^verbatim>\<open>defineReactive\<close> installs. The latter records what the closure
  captures and never changes: its identity, its \<^verbatim>\<open>dep\<close>, the descriptor \<^verbatim>\<open>property\<close>
  found before (whose \<^verbatim>\<open>get\<close>/\<^verbatim>\<open>set\<close> are the captured \<^verbatim>\<open>getter\<close>/\<^verbatim>\<open>setter\<close>),
  \<^verbatim>\<open>customSetter\<close> and \<^verbatim>\<open>shallow\<close>. The variables the closure assigns (\<^verbatim>\<open>val\<close>,
  \<^verbatim>\<open>childOb\<close>) live in the state, under the closure's identity.
\<close>

datatype property =
    Data val bool bool bool
  | Accessor "fid option" "fid option" bool bool
  | Reactive cid did "property option" "fid option" bool

datatype proto = ObjectProto | ArrayProto | ArrayMethods | NullProto

record obj =
  props :: "(pkey \<times> property) list" \<comment> \<open>own properties, in creation order\<close>
  elems :: "val list" \<comment> \<open>the elements of an array (a hole reads as \<open>Undefined\<close>)\<close>
  arr :: bool \<comment> \<open>\<^verbatim>\<open>Array.isArray\<close>\<close>
  plain :: bool \<comment> \<open>\<^verbatim>\<open>Object.prototype.toString\<close> gives \<^verbatim>\<open>[object Object]\<close>\<close>
  vnode :: bool \<comment> \<open>\<^verbatim>\<open>instanceof VNode\<close>\<close>
  extensible :: bool \<comment> \<open>\<^verbatim>\<open>Object.isExtensible\<close>\<close>
  proto :: proto \<comment> \<open>\<^verbatim>\<open>__proto__\<close>\<close>

record dep =
  dep_id :: nat
  subs :: "wid list"

record observer =
  ob_value :: addr
  ob_dep :: did
  vmCount :: nat

record cell =
  c_val :: val
  c_childOb :: "oid option"

text \<open>
  What the core does to the outside is recorded in a trace: a developer warning, a call
  of \<^verbatim>\<open>dep.notify()\<close>, a call of \<^verbatim>\<open>sub.update()\<close>, a call of
  \<^verbatim>\<open>Dep.target.addDep(dep)\<close>.
\<close>

datatype event = Warn string | Notified did | Updated wid | AddDep wid did

record 'w state =
  objs :: "obj list" \<comment> \<open>the object at address \<open>a\<close> is \<open>objs ! a\<close>\<close>
  observers :: "oid \<Rightarrow> observer"
  nobs :: nat \<comment> \<open>next free \<^verbatim>\<open>Observer\<close> identity\<close>
  deps :: "did \<Rightarrow> dep"
  uid :: nat \<comment> \<open>\<^verbatim>\<open>let uid = 0\<close> of \<^verbatim>\<open>dep.js\<close>\<close>
  cells :: "cid \<Rightarrow> cell"
  ncells :: nat \<comment> \<open>next free closure identity\<close>
  target :: "wid option" \<comment> \<open>\<^verbatim>\<open>Dep.target\<close>\<close>
  targetStack :: "wid option list"
  shouldObserve :: bool
  trace :: "event list"
  world :: 'w \<comment> \<open>whatever else the consumers keep\<close>

text \<open>
  What is fixed during a run: the build (\<^verbatim>\<open>process.env.NODE_ENV\<close>), \<^verbatim>\<open>config.async\<close>,
  \<^verbatim>\<open>isServerRendering()\<close>, \<^verbatim>\<open>hasProto\<close>, the member names of the built-in prototypes,
  and the external code the core calls into: the watchers (\<^verbatim>\<open>id\<close>, \<^verbatim>\<open>update\<close>,
  \<^verbatim>\<open>addDep\<close>), user getters and setters, the comparison-driven result of the native
  \<^verbatim>\<open>sort\<close> and the conversion of a string or an object to an integer. External code is
  any function on the state; it is taken to return normally.
\<close>

record 'w env =
  production :: bool
  async :: bool
  serverRendering :: bool
  hasProto :: bool
  objectProtoKeys :: "pkey \<Rightarrow> bool"
  arrayProtoKeys :: "pkey \<Rightarrow> bool"
  watcher_id :: "wid \<Rightarrow> int"
  update :: "wid \<Rightarrow> 'w state \<Rightarrow> 'w state"
  addDep :: "wid \<Rightarrow> did \<Rightarrow> 'w state \<Rightarrow> 'w state"
  user_get :: "fid \<Rightarrow> addr \<Rightarrow> 'w state \<Rightarrow> val \<times> 'w state"
  user_set :: "fid \<Rightarrow> addr \<Rightarrow> val \<Rightarrow> 'w state \<Rightarrow> 'w state"
  user_call :: "fid \<Rightarrow> 'w state \<Rightarrow> 'w state"
  native_sort :: "val list \<Rightarrow> val list \<Rightarrow> val list"
  to_integer :: "val \<Rightarrow> int"

text \<open>
  The trace belongs to the model, not to the program: external code cannot write it.
  Whatever a callback returns, the trace is the one before the call.
\<close>

definition external :: "('w state \<Rightarrow> 'w state) \<Rightarrow> 'w state \<Rightarrow> 'w state" where
  "external f s = (f s)\<lparr>trace := trace s\<rparr>"

definition emit :: "event \<Rightarrow> 'w state \<Rightarrow> 'w state" where
  "emit e s = s\<lparr>trace := trace s @ [e]\<rparr>"

text \<open>The events an operation added, going from state \<open>s\<close> to state \<open>s'\<close>.\<close>

definition added :: "'w state \<Rightarrow> 'w state \<Rightarrow> event list" where
  "added s s' = drop (length (trace s)) (trace s')"

fun updates_of :: "event list \<Rightarrow> wid list" where
  "updates_of [] = []"
| "updates_of (Updated w # es) = w # updates_of es"
| "updates_of (_ # es) = updates_of es"

fun notifications_of :: "event list \<Rightarrow> did list" where
  "notifications_of [] = []"
| "notifications_of (Notified d # es) = d # notifications_of es"
| "notifications_of (_ # es) = notifications_of es"

fun warnings_of :: "event list \<Rightarrow> string list" where
  "warnings_of [] = []"
| "warnings_of (Warn m # es) = m # warnings_of es"
| "warnings_of (_ # es) = warnings_of es"

fun depends_of :: "event list \<Rightarrow> (wid \<times> did) list" where
  "depends_of [] = []"
| "depends_of (AddDep w d # es) = (w, d) # depends_of es"
| "depends_of (_ # es) = depends_of es"

section \<open>\<^verbatim>\<open>dep.js\<close>\<close>

text \<open>\<^verbatim>\<open>constructor () { this.id = uid++; this.subs = [] }\<close>\<close>

definition Dep_new :: "'w state \<Rightarrow> did \<times> 'w state" where
  "Dep_new s =
     (uid s, s\<lparr>deps := (deps s)(uid s := \<lparr>dep_id = uid s, subs = []\<rparr>), uid := Suc (uid s)\<rparr>)"

definition addSub :: "did \<Rightarrow> wid \<Rightarrow> 'w state \<Rightarrow> 'w state" where
  "addSub d w s = s\<lparr>deps := (deps s)(d := (deps s d)\<lparr>subs := subs (deps s d) @ [w]\<rparr>)\<rparr>"

text \<open>
  Modelled from the spec: \<^verbatim>\<open>remove\<close> of \<^verbatim>\<open>util/index\<close>, which \<^verbatim>\<open>removeSub\<close> calls
  (``removes first structural match; no-op if absent'').
\<close>

definition remove :: "'a list \<Rightarrow> 'a \<Rightarrow> 'a list" where
  "remove xs x = remove1 x xs"

definition removeSub :: "did \<Rightarrow> wid \<Rightarrow> 'w state \<Rightarrow> 'w state" where
  "removeSub d w s = s\<lparr>deps := (deps s)(d := (deps s d)\<lparr>subs := remove (subs (deps s d)) w\<rparr>)\<rparr>"

text \<open>\<^verbatim>\<open>depend () { if (Dep.target) { Dep.target.addDep(this) } }\<close>\<close>

definition depend :: "'w env \<Rightarrow> did \<Rightarrow> 'w state \<Rightarrow> 'w state" where
  "depend env d s =
     (case target s of
        None \<Rightarrow> s
      | Some w \<Rightarrow> external (addDep env w d) (emit (AddDep w d) s))"

text \<open>
  \<^verbatim>\<open>notify\<close>: the copy \<^verbatim>\<open>this.subs.slice()\<close> is sorted by \<^verbatim>\<open>id\<close> when
  \<^verbatim>\<open>process.env.NODE_ENV !== 'production' && !config.async\<close>, then \<^verbatim>\<open>update()\<close> is
  called on each entry of the copy. \<^verbatim>\<open>Array.prototype.sort\<close> with the comparison
  \<^verbatim>\<open>a.id - b.id\<close> is the stable sort on the key \<^verbatim>\<open>id\<close>.
\<close>

definition stabilize :: "'w env \<Rightarrow> wid list \<Rightarrow> wid list" where
  "stabilize env ws =
     (if \<not> production env \<and> \<not> async env then sort_key (watcher_id env) ws else ws)"

fun dispatch :: "'w env \<Rightarrow> wid list \<Rightarrow> 'w state \<Rightarrow> 'w state" where
  "dispatch env [] s = s"
| "dispatch env (w # ws) s = dispatch env ws (external (update env w) (emit (Updated w) s))"

definition notify :: "'w env \<Rightarrow> did \<Rightarrow> 'w state \<Rightarrow> 'w state" where
  "notify env d s = dispatch env (stabilize env (subs (deps s d))) (emit (Notified d) s)"

definition pushTarget :: "wid option \<Rightarrow> 'w state \<Rightarrow> 'w state" where
  "pushTarget t s = s\<lparr>targetStack := targetStack s @ [t], target := t\<rparr>"

definition popTarget :: "'w state \<Rightarrow> 'w state" where
  "popTarget s =
     (let st = butlast (targetStack s)
      in s\<lparr>targetStack := st, target := (if st = [] then None else last st)\<rparr>)"

section \<open>Results of a call\<close>

text \<open>
  A call returns, throws, or (for the two recursions of the core that JavaScript does
  not bound: \<^verbatim>\<open>observe\<close> over nested containers and \<^verbatim>\<open>dependArray\<close> over nested
  arrays) runs out of the fuel it was given. \<open>Unmodelled\<close> marks the inputs the model
  does not cover.
\<close>

datatype exn = TypeError | RangeError | Unmodelled

datatype 'a comp = Diverge | Throw exn | Ret 'a

definition seq :: "'a comp \<Rightarrow> ('a \<Rightarrow> 'b comp) \<Rightarrow> 'b comp" where
  "seq m f = (case m of Diverge \<Rightarrow> Diverge | Throw e \<Rightarrow> Throw e | Ret x \<Rightarrow> f x)"

section \<open>Objects\<close>

text \<open>An address outside the heap denotes an inert object: frozen, not plain, not an array.\<close>

definition dead_obj :: obj where
  "dead_obj = \<lparr>props = [], elems = [], arr = False, plain = False, vnode = False,
     extensible = False, proto = NullProto\<rparr>"

definition obj_at :: "'w state \<Rightarrow> addr \<Rightarrow> obj" where
  "obj_at s a = (if a < length (objs s) then objs s ! a else dead_obj)"

definition put_obj :: "addr \<Rightarrow> obj \<Rightarrow> 'w state \<Rightarrow> 'w state" where
  "put_obj a ob s = s\<lparr>objs := (objs s)[a := ob]\<rparr>"

definition own :: "'w state \<Rightarrow> addr \<Rightarrow> pkey \<Rightarrow> property option" where
  "own s a k = map_of (props (obj_at s a)) k"

definition put_own :: "addr \<Rightarrow> pkey \<Rightarrow> property \<Rightarrow> 'w state \<Rightarrow> 'w state" where
  "put_own a k p s = put_obj a ((obj_at s a)\<lparr>props := AList.update k p (props (obj_at s a))\<rparr>) s"

text \<open>
  \<^verbatim>\<open>Object.getOwnPropertyDescriptor\<close>: besides the own properties, an array has its
  elements and its \<^verbatim>\<open>length\<close>.
\<close>

definition getOwnPropertyDescriptor :: "'w state \<Rightarrow> addr \<Rightarrow> pkey \<Rightarrow> property option" where
  "getOwnPropertyDescriptor s a k =
     (case own s a k of
        Some p \<Rightarrow> Some p
      | None \<Rightarrow>
          if arr (obj_at s a) then
            (case k of
               Idx i \<Rightarrow>
                 if i < length (elems (obj_at s a))
                 then Some (Data (elems (obj_at s a) ! i) True True True) else None
             | Name n \<Rightarrow>
                 if n = ''length''
                 then Some (Data (Num (int (length (elems (obj_at s a))))) False False True)
                 else None)
          else None)"

text \<open>Modelled from the spec: \<^verbatim>\<open>hasOwn\<close> of \<^verbatim>\<open>util/index\<close> (``own property'').\<close>

definition hasOwn :: "'w state \<Rightarrow> addr \<Rightarrow> pkey \<Rightarrow> bool" where
  "hasOwn s a k = (getOwnPropertyDescriptor s a k \<noteq> None)"

fun meth_name :: "meth \<Rightarrow> string" where
  "meth_name Push = ''push''"
| "meth_name Pop = ''pop''"
| "meth_name Shift = ''shift''"
| "meth_name Unshift = ''unshift''"
| "meth_name Splice = ''splice''"
| "meth_name Sort = ''sort''"
| "meth_name Reverse = ''reverse''"

definition methodsToPatch :: "meth list" where
  "methodsToPatch = [Push, Pop, Shift, Unshift, Splice, Sort, Reverse]"

text \<open>The members of a prototype chain: \<^verbatim>\<open>arrayMethods\<close> inherits from
  \<^verbatim>\<open>Array.prototype\<close>, which inherits from \<^verbatim>\<open>Object.prototype\<close>.\<close>

fun in_proto :: "'w env \<Rightarrow> proto \<Rightarrow> pkey \<Rightarrow> bool" where
  "in_proto env NullProto k = False"
| "in_proto env ObjectProto k = objectProtoKeys env k"
| "in_proto env ArrayProto k = (arrayProtoKeys env k \<or> objectProtoKeys env k)"
| "in_proto env ArrayMethods k =
     (k \<in> set (map (\<lambda>m. Name (meth_name m)) methodsToPatch) \<or> arrayProtoKeys env k \<or>
      objectProtoKeys env k)"

text \<open>\<^verbatim>\<open>key in target\<close>, for an object \<^verbatim>\<open>target\<close>.\<close>

definition has_property :: "'w env \<Rightarrow> 'w state \<Rightarrow> addr \<Rightarrow> pkey \<Rightarrow> bool" where
  "has_property env s a k = (hasOwn s a k \<or> in_proto env (proto (obj_at s a)) k)"

text \<open>What reading an inherited member gives.\<close>

fun inherited :: "'w env \<Rightarrow> proto \<Rightarrow> pkey \<Rightarrow> val" where
  "inherited env ArrayMethods k =
     (case find (\<lambda>m. Name (meth_name m) = k) methodsToPatch of
        Some m \<Rightarrow> Method m
      | None \<Rightarrow> if in_proto env ArrayProto k then Native k else Undefined)"
| "inherited env p k = (if in_proto env p k then Native k else Undefined)"

fun truthy :: "val \<Rightarrow> bool" where
  "truthy Undefined = False"
| "truthy Null = False"
| "truthy (Bool b) = b"
| "truthy (Num n) = (n \<noteq> 0)"
| "truthy NaN = False"
| "truthy (Str t) = (t \<noteq> [])"
| "truthy _ = True"

text \<open>\<^verbatim>\<open>a === b\<close>: identity of values, except that \<open>NaN\<close> is not equal to itself.\<close>

definition strict_eq :: "val \<Rightarrow> val \<Rightarrow> bool" where
  "strict_eq a b = (a = b \<and> a \<noteq> NaN)"

text \<open>Modelled from the spec: \<^verbatim>\<open>isUndef\<close>, \<^verbatim>\<open>isPrimitive\<close>, \<^verbatim>\<open>isObject\<close> of
  \<^verbatim>\<open>util/index\<close> (``an undefined/null/primitive target''; a value that can be a
  container at all).\<close>

definition isUndef :: "val \<Rightarrow> bool" where
  "isUndef v = (v = Undefined \<or> v = Null)"

fun isPrimitive :: "val \<Rightarrow> bool" where
  "isPrimitive (Str t) = True"
| "isPrimitive (Num n) = True"
| "isPrimitive NaN = True"
| "isPrimitive (Bool b) = True"
| "isPrimitive _ = False"

fun isObject :: "val \<Rightarrow> bool" where
  "isObject (Ref a) = True"
| "isObject (ObRef ob) = True"
| "isObject _ = False"

text \<open>\<^verbatim>\<open>Array.isArray\<close>.\<close>

fun isArray :: "'w state \<Rightarrow> val \<Rightarrow> bool" where
  "isArray s (Ref a) = arr (obj_at s a)"
| "isArray s _ = False"

text \<open>Modelled from the spec: \<^verbatim>\<open>isPlainObject\<close> of \<^verbatim>\<open>util/index\<close> (``plain map-like
  objects'').\<close>

definition isPlainObject :: "'w state \<Rightarrow> addr \<Rightarrow> bool" where
  "isPlainObject s a = plain (obj_at s a)"

text \<open>Modelled from the spec: \<^verbatim>\<open>isValidArrayIndex\<close> of \<^verbatim>\<open>util/index\<close> (``\<^verbatim>\<open>key\<close> is a
  valid index'').\<close>

fun isValidArrayIndex :: "pkey \<Rightarrow> bool" where
  "isValidArrayIndex (Idx i) = True"
| "isValidArrayIndex (Name n) = False"

text \<open>Modelled from the spec: \<^verbatim>\<open>warn\<close> of \<^verbatim>\<open>util/index\<close> (``delivered via a
  side-channel log and never interrupt control flow'').\<close>

definition warn :: "string \<Rightarrow> 'w state \<Rightarrow> 'w state" where
  "warn msg s = emit (Warn msg) s"

text \<open>
  Modelled from the spec: \<^verbatim>\<open>def\<close> of \<^verbatim>\<open>util/index\<close>, which attaches a hidden field
  (``attached to the container via a hidden marker field''): a data property that is not
  enumerable, and writable and configurable.
\<close>

definition def_prop :: "addr \<Rightarrow> pkey \<Rightarrow> val \<Rightarrow> 'w state \<Rightarrow> 'w state" where
  "def_prop a k v s = put_own a k (Data v False True True) s"

section \<open>Reading a property\<close>

definition user_getter :: "'w env \<Rightarrow> fid \<Rightarrow> addr \<Rightarrow> 'w state \<Rightarrow> val \<times> 'w state" where
  "user_getter env f a s = (fst (user_get env f a s), external (\<lambda>t. snd (user_get env f a t)) s)"

text \<open>
  The block \<^verbatim>\<open>if (Dep.target) { ... }\<close> of \<^verbatim>\<open>reactiveGetter\<close>, lines 204--218, for
  the closure \<open>c\<close> with the dep \<open>d\<close> and the value \<open>v\<close> that was read. The parameter
  \<open>da\<close> is \<^verbatim>\<open>dependArray\<close>, defined below.
\<close>

definition collect ::
  "(addr \<Rightarrow> 'w state \<Rightarrow> 'w state comp) \<Rightarrow> 'w env \<Rightarrow> cid \<Rightarrow> did \<Rightarrow> val \<Rightarrow> 'w state \<Rightarrow>
   (val \<times> 'w state) comp" where
  "collect da env c d v s1 =
     (if target s1 = None then Ret (v, s1)
      else
        let s2 = depend env d s1 in
        (case c_childOb (cells s2 c) of
           None \<Rightarrow> Ret (v, s2)
         | Some ob \<Rightarrow>
             let s3 = depend env (ob_dep (observers s2 ob)) s2 in
             (case v of
                Ref b \<Rightarrow>
                  if arr (obj_at s3 b) then seq (da b s3) (\<lambda>s4. Ret (v, s4))
                  else Ret (v, s3)
              | _ \<Rightarrow> Ret (v, s3))))"

text \<open>
  \<open>call_get\<close> reads an own property \<open>p\<close> of the object \<open>a\<close>: the value of a data
  property, the result of the user getter, or \<^verbatim>\<open>reactiveGetter\<close> (lines 196--220 of
  \<^verbatim>\<open>index.js\<close>).
\<close>

fun call_get ::
  "(addr \<Rightarrow> 'w state \<Rightarrow> 'w state comp) \<Rightarrow> 'w env \<Rightarrow> addr \<Rightarrow> property \<Rightarrow> 'w state \<Rightarrow>
   (val \<times> 'w state) comp" where
  "call_get da env a (Data v e c w) s = Ret (v, s)"
| "call_get da env a (Accessor g st e c) s =
     (case g of None \<Rightarrow> Ret (Undefined, s) | Some f \<Rightarrow> Ret (user_getter env f a s))"
| "call_get da env a (Reactive c d prev cust sh) s =
     seq (case prev of
            Some (Accessor (Some f) st e cf) \<Rightarrow> Ret (user_getter env f a s)
          | Some (Reactive c' d' prev' cust' sh') \<Rightarrow>
              call_get da env a (Reactive c' d' prev' cust' sh') s
          | _ \<Rightarrow> Ret (c_val (cells s c), s))
       (\<lambda>(v, s1). collect da env c d v s1)"

text \<open>\<^verbatim>\<open>obj[key]\<close> for an object \<open>a\<close>.\<close>

definition get_member ::
  "(addr \<Rightarrow> 'w state \<Rightarrow> 'w state comp) \<Rightarrow> 'w env \<Rightarrow> addr \<Rightarrow> pkey \<Rightarrow> 'w state \<Rightarrow>
   (val \<times> 'w state) comp" where
  "get_member da env a k s =
     (case getOwnPropertyDescriptor s a k of
        Some p \<Rightarrow> call_get da env a p s
      | None \<Rightarrow> Ret (inherited env (proto (obj_at s a)) k, s))"

text \<open>\<^verbatim>\<open>e.__ob__\<close> for any value \<open>e\<close> that is not \<^verbatim>\<open>undefined\<close> or \<^verbatim>\<open>null\<close>; only
  the objects of the heap have such a member.\<close>

definition get_ob ::
  "(addr \<Rightarrow> 'w state \<Rightarrow> 'w state comp) \<Rightarrow> 'w env \<Rightarrow> val \<Rightarrow> 'w state \<Rightarrow>
   (val \<times> 'w state) comp" where
  "get_ob da env e s =
     (case e of Ref b \<Rightarrow> get_member da env b (Name ''__ob__'') s | _ \<Rightarrow> Ret (Undefined, s))"

text \<open>
  \<^verbatim>\<open>dependArray\<close> (lines 321--329): the loop reads \<^verbatim>\<open>value.length\<close> once and
  \<^verbatim>\<open>value[i]\<close> in each round. \<^verbatim>\<open>e && e.__ob__ && e.__ob__.dep.depend()\<close> reads
  \<^verbatim>\<open>e.__ob__\<close> twice and throws when the second read is not an observer.
\<close>

definition elem_at :: "'w state \<Rightarrow> addr \<Rightarrow> nat \<Rightarrow> val" where
  "elem_at s a i = (if i < length (elems (obj_at s a)) then elems (obj_at s a) ! i else Undefined)"

fun dependArray_loop ::
  "(addr \<Rightarrow> 'w state \<Rightarrow> 'w state comp) \<Rightarrow> 'w env \<Rightarrow> addr \<Rightarrow> nat \<Rightarrow> nat \<Rightarrow> 'w state \<Rightarrow>
   'w state comp" where
  "dependArray_loop da env a i 0 s = Ret s"
| "dependArray_loop da env a i (Suc k) s =
     (let e = elem_at s a i in
      seq (if truthy e then
             seq (get_ob da env e s)
               (\<lambda>(r1, s1).
                  if truthy r1 then
                    seq (get_ob da env e s1)
                      (\<lambda>(r2, s2).
                         case r2 of
                           ObRef ob \<Rightarrow> Ret (depend env (ob_dep (observers s2 ob)) s2)
                         | _ \<Rightarrow> Throw TypeError)
                  else Ret s1)
           else Ret s)
        (\<lambda>s3. seq (case e of
                     Ref b \<Rightarrow> if arr (obj_at s3 b) then da b s3 else Ret s3
                   | _ \<Rightarrow> Ret s3)
           (\<lambda>s4. dependArray_loop da env a (Suc i) k s4)))"

fun dependArray :: "nat \<Rightarrow> 'w env \<Rightarrow> addr \<Rightarrow> 'w state \<Rightarrow> 'w state comp" where
  "dependArray 0 env a s = Diverge"
| "dependArray (Suc n) env a s =
     dependArray_loop (dependArray n env) env a 0 (length (elems (obj_at s a))) s"

section \<open>\<^verbatim>\<open>index.js\<close>: observing a value\<close>

fun enumerable :: "property \<Rightarrow> bool" where
  "enumerable (Data v e c w) = e"
| "enumerable (Accessor g st e c) = e"
| "enumerable (Reactive c d prev cust sh) = True"

fun configurable :: "property \<Rightarrow> bool" where
  "configurable (Data v e c w) = c"
| "configurable (Accessor g st e c) = c"
| "configurable (Reactive c d prev cust sh) = True"

text \<open>\<^verbatim>\<open>property && property.get\<close> and \<^verbatim>\<open>property && property.set\<close>, as truth values.\<close>

fun has_getter :: "property option \<Rightarrow> bool" where
  "has_getter (Some (Accessor (Some f) st e c)) = True"
| "has_getter (Some (Reactive c d prev cust sh)) = True"
| "has_getter _ = False"

fun has_setter :: "property option \<Rightarrow> bool" where
  "has_setter (Some (Accessor g (Some f) e c)) = True"
| "has_setter (Some (Reactive c d prev cust sh)) = True"
| "has_setter _ = False"

text \<open>\<^verbatim>\<open>Object.keys\<close>: the enumerable own keys, the indices in ascending order first,
  then the names in creation order.\<close>

definition Object_keys :: "obj \<Rightarrow> pkey list" where
  "Object_keys ob =
     (let ks = map fst (filter (\<lambda>kp. enumerable (snd kp)) (props ob))
      in map Idx (sort (concat (map (\<lambda>k. case k of Idx i \<Rightarrow> [i] | Name n \<Rightarrow> []) ks))) @
         filter (\<lambda>k. case k of Idx i \<Rightarrow> False | Name n \<Rightarrow> True) ks)"

text \<open>
  \<^verbatim>\<open>Object.defineProperty(obj, key, { enumerable: true, configurable: true, get, set })\<close>
  at the end of \<^verbatim>\<open>defineReactive\<close>: it makes the closure (with the current \<^verbatim>\<open>val\<close> and
  \<^verbatim>\<open>childOb\<close>) the property. JavaScript throws when the key is new and the object is not
  extensible. An element or the length of an array as a reactive property is not
  modelled.
\<close>

definition defineProperty ::
  "addr \<Rightarrow> pkey \<Rightarrow> did \<Rightarrow> property option \<Rightarrow> fid option \<Rightarrow> bool \<Rightarrow> val \<Rightarrow> oid option \<Rightarrow>
   'w state \<Rightarrow> 'w state comp" where
  "defineProperty a key d property customSetter shallow v childOb s =
     (if own s a key = None \<and> getOwnPropertyDescriptor s a key \<noteq> None then Throw Unmodelled
      else if (case own s a key of
                 Some p \<Rightarrow> \<not> configurable p
               | None \<Rightarrow> \<not> extensible (obj_at s a)) then Throw TypeError
      else Ret (put_own a key (Reactive (ncells s) d property customSetter shallow)
                  (s\<lparr>cells := (cells s)(ncells s := \<lparr>c_val = v, c_childOb = childOb\<rparr>),
                     ncells := Suc (ncells s)\<rparr>)))"

text \<open>
  \<^verbatim>\<open>defineReactive(obj, key, val, customSetter, shallow)\<close>, lines 165--247. The
  argument \<open>arg\<close> is \<open>None\<close> for a call with two arguments
  (\<^verbatim>\<open>arguments.length === 2\<close>). The parameter \<open>obs\<close> is \<^verbatim>\<open>observe\<close> with one argument,
  defined below.
\<close>

definition defineReactive ::
  "(val \<Rightarrow> 'w state \<Rightarrow> (oid option \<times> 'w state) comp) \<Rightarrow>
   (addr \<Rightarrow> 'w state \<Rightarrow> 'w state comp) \<Rightarrow> 'w env \<Rightarrow> addr \<Rightarrow> pkey \<Rightarrow> val option \<Rightarrow>
   fid option \<Rightarrow> bool \<Rightarrow> 'w state \<Rightarrow> 'w state comp" where
  "defineReactive obs da env a key arg customSetter shallow s =
     (let (d, s1) = Dep_new s;
          property = getOwnPropertyDescriptor s1 a key
      in if (case property of Some p \<Rightarrow> \<not> configurable p | None \<Rightarrow> False) then Ret s1
         else
           seq (if (\<not> has_getter property \<or> has_setter property) \<and> arg = None
                then get_member da env a key s1
                else Ret (case arg of None \<Rightarrow> Undefined | Some v \<Rightarrow> v, s1))
             (\<lambda>(v, s2).
                seq (if shallow then Ret (None, s2) else obs v s2)
                  (\<lambda>(childOb, s3).
                     defineProperty a key d property customSetter shallow v childOb s3)))"

fun walk_keys ::
  "(val \<Rightarrow> 'w state \<Rightarrow> (oid option \<times> 'w state) comp) \<Rightarrow>
   (addr \<Rightarrow> 'w state \<Rightarrow> 'w state comp) \<Rightarrow> 'w env \<Rightarrow> addr \<Rightarrow> pkey list \<Rightarrow> 'w state \<Rightarrow>
   'w state comp" where
  "walk_keys obs da env a [] s = Ret s"
| "walk_keys obs da env a (k # ks) s =
     seq (defineReactive obs da env a k None None False s)
       (\<lambda>s'. walk_keys obs da env a ks s')"

definition walk ::
  "(val \<Rightarrow> 'w state \<Rightarrow> (oid option \<times> 'w state) comp) \<Rightarrow>
   (addr \<Rightarrow> 'w state \<Rightarrow> 'w state comp) \<Rightarrow> 'w env \<Rightarrow> addr \<Rightarrow> 'w state \<Rightarrow> 'w state comp" where
  "walk obs da env a s = walk_keys obs da env a (Object_keys (obj_at s a)) s"

text \<open>
  \<^verbatim>\<open>observeArray (items)\<close>: \<^verbatim>\<open>items.length\<close> is read once, \<^verbatim>\<open>items[i]\<close> in each
  round. \<open>item i s\<close> is \<^verbatim>\<open>items[i]\<close> in the state \<open>s\<close>.
\<close>

fun observeArray_loop ::
  "(val \<Rightarrow> 'w state \<Rightarrow> (oid option \<times> 'w state) comp) \<Rightarrow> (nat \<Rightarrow> 'w state \<Rightarrow> val) \<Rightarrow>
   nat \<Rightarrow> nat \<Rightarrow> 'w state \<Rightarrow> 'w state comp" where
  "observeArray_loop obs item i 0 s = Ret s"
| "observeArray_loop obs item i (Suc k) s =
     seq (obs (item i s) s) (\<lambda>(ob, s'). observeArray_loop obs item (Suc i) k s')"

text \<open>Called on an array of the heap, and on the fresh array of the inserted arguments.\<close>

definition observeArray ::
  "(val \<Rightarrow> 'w state \<Rightarrow> (oid option \<times> 'w state) comp) \<Rightarrow> addr \<Rightarrow> 'w state \<Rightarrow> 'w state comp" where
  "observeArray obs a s =
     observeArray_loop obs (\<lambda>i t. elem_at t a i) 0 (length (elems (obj_at s a))) s"

definition observeArray_args ::
  "(val \<Rightarrow> 'w state \<Rightarrow> (oid option \<times> 'w state) comp) \<Rightarrow> val list \<Rightarrow> 'w state \<Rightarrow>
   'w state comp" where
  "observeArray_args obs items s =
     observeArray_loop obs (\<lambda>i t. if i < length items then items ! i else Undefined) 0
       (length items) s"

definition protoAugment :: "addr \<Rightarrow> 'w state \<Rightarrow> 'w state" where
  "protoAugment a s = put_obj a ((obj_at s a)\<lparr>proto := ArrayMethods\<rparr>) s"

definition copyAugment :: "addr \<Rightarrow> 'w state \<Rightarrow> 'w state" where
  "copyAugment a s = fold (\<lambda>m. def_prop a (Name (meth_name m)) (Method m)) methodsToPatch s"

text \<open>\<^verbatim>\<open>new Observer(value)\<close>, lines 49--77.\<close>

definition Observer_new ::
  "(val \<Rightarrow> 'w state \<Rightarrow> (oid option \<times> 'w state) comp) \<Rightarrow>
   (addr \<Rightarrow> 'w state \<Rightarrow> 'w state comp) \<Rightarrow> 'w env \<Rightarrow> addr \<Rightarrow> 'w state \<Rightarrow>
   (oid \<times> 'w state) comp" where
  "Observer_new obs da env a s =
     (let (d, s1) = Dep_new s;
          ob = nobs s1;
          s2 = s1\<lparr>observers := (observers s1)(ob := \<lparr>ob_value = a, ob_dep = d, vmCount = 0\<rparr>),
                  nobs := Suc ob\<rparr>;
          s3 = def_prop a (Name ''__ob__'') (ObRef ob) s2
      in seq (if arr (obj_at s3 a)
              then observeArray obs a (if hasProto env then protoAugment a s3 else copyAugment a s3)
              else walk obs da env a s3)
           (\<lambda>s4. Ret (ob, s4)))"

text \<open>
  \<^verbatim>\<open>observe(value, asRootData)\<close>, lines 136--159. The fuel bounds the depth of the
  nested calls: \<^verbatim>\<open>observe\<close> calls \<^verbatim>\<open>new Observer\<close>, which calls \<^verbatim>\<open>observe\<close> on the
  members. An \<^verbatim>\<open>Observer\<close> instance passed as a value to observe is not modelled.
\<close>

fun observe :: "nat \<Rightarrow> 'w env \<Rightarrow> val \<Rightarrow> bool \<Rightarrow> 'w state \<Rightarrow> (oid option \<times> 'w state) comp" where
  "observe 0 env v asRootData s = Diverge"
| "observe (Suc n) env v asRootData s =
     (case v of
        Ref a \<Rightarrow>
          if vnode (obj_at s a) then Ret (None, s)
          else
            seq (if hasOwn s a (Name ''__ob__'')
                 then get_member (dependArray n env) env a (Name ''__ob__'') s
                 else Ret (Undefined, s))
              (\<lambda>(m, s1).
                 seq (case m of
                        ObRef ob \<Rightarrow> Ret (Some ob, s1)
                      | _ \<Rightarrow>
                          if shouldObserve s1 \<and> \<not> serverRendering env \<and>
                             (arr (obj_at s1 a) \<or> isPlainObject s1 a) \<and> extensible (obj_at s1 a)
                          then
                            seq (get_member (dependArray n env) env a (Name ''_isVue'') s1)
                              (\<lambda>(isVue, s2).
                                 if \<not> truthy isVue
                                 then seq (Observer_new (\<lambda>x. observe n env x False)
                                             (dependArray n env) env a s2)
                                        (\<lambda>(ob, s3). Ret (Some ob, s3))
                                 else Ret (None, s2))
                          else Ret (None, s1))
                   (\<lambda>(ob, s4).
                      case ob of
                        Some b \<Rightarrow>
                          if asRootData
                          then Ret (ob, s4\<lparr>observers := (observers s4)
                                 (b := (observers s4 b)\<lparr>vmCount := Suc (vmCount (observers s4 b))\<rparr>)\<rparr>)
                          else Ret (ob, s4)
                      | None \<Rightarrow> Ret (None, s4)))
      | ObRef ob \<Rightarrow> Throw Unmodelled
      | _ \<Rightarrow> Ret (None, s))"

section \<open>\<^verbatim>\<open>index.js\<close>: writing a property\<close>

text \<open>\<^verbatim>\<open>getter ? getter.call(obj) : val\<close>, the first line of both accessors.\<close>

definition current_value ::
  "(addr \<Rightarrow> 'w state \<Rightarrow> 'w state comp) \<Rightarrow> 'w env \<Rightarrow> addr \<Rightarrow> cid \<Rightarrow> property option \<Rightarrow>
   'w state \<Rightarrow> (val \<times> 'w state) comp" where
  "current_value da env a c prev s =
     (case prev of
        Some (Accessor (Some f) st e cf) \<Rightarrow> Ret (user_getter env f a s)
      | Some (Reactive c' d' prev' cust' sh') \<Rightarrow>
          call_get da env a (Reactive c' d' prev' cust' sh') s
      | _ \<Rightarrow> Ret (c_val (cells s c), s))"

text \<open>
  \<open>call_set\<close> writes through an accessor property. For the pair installed by
  \<^verbatim>\<open>defineReactive\<close> it is \<^verbatim>\<open>reactiveSetter\<close>, lines 221--245. The module is strict
  code, so writing to an accessor without a setter throws.
\<close>

fun call_set ::
  "(val \<Rightarrow> 'w state \<Rightarrow> (oid option \<times> 'w state) comp) \<Rightarrow>
   (addr \<Rightarrow> 'w state \<Rightarrow> 'w state comp) \<Rightarrow> 'w env \<Rightarrow> addr \<Rightarrow> property \<Rightarrow> val \<Rightarrow> 'w state \<Rightarrow>
   'w state comp" where
  "call_set obs da env a (Data v e c w) newVal s = Throw Unmodelled"
| "call_set obs da env a (Accessor g st e c) newVal s =
     (case st of
        None \<Rightarrow> Throw TypeError
      | Some f \<Rightarrow> Ret (external (user_set env f a newVal) s))"
| "call_set obs da env a (Reactive c d prev cust sh) newVal s =
     seq (current_value da env a c prev s)
       (\<lambda>(v, s1).
          if strict_eq newVal v \<or> (\<not> strict_eq newVal newVal \<and> \<not> strict_eq v v) then Ret s1
          else
            let s2 = (if \<not> production env
                      then (case cust of None \<Rightarrow> s1 | Some f \<Rightarrow> external (user_call env f) s1)
                      else s1)
            in if has_getter prev \<and> \<not> has_setter prev then Ret s2
               else
                 seq (case prev of
                        Some (Accessor g (Some f) e cf) \<Rightarrow>
                          Ret (external (user_set env f a newVal) s2)
                      | Some (Reactive c' d' prev' cust' sh') \<Rightarrow>
                          call_set obs da env a (Reactive c' d' prev' cust' sh') newVal s2
                      | _ \<Rightarrow>
                          Ret (s2\<lparr>cells := (cells s2)(c := (cells s2 c)\<lparr>c_val := newVal\<rparr>)\<rparr>))
                   (\<lambda>s3.
                      seq (if sh then Ret (None, s3) else obs newVal s3)
                        (\<lambda>(childOb, s4).
                           Ret (notify env d
                                  (s4\<lparr>cells := (cells s4)
                                     (c := (cells s4 c)\<lparr>c_childOb := childOb\<rparr>)\<rparr>)))))"

text \<open>\<^verbatim>\<open>target.length = n\<close> on an array.\<close>

definition set_length :: "addr \<Rightarrow> nat \<Rightarrow> 'w state \<Rightarrow> 'w state" where
  "set_length a n s =
     (let xs = elems (obj_at s a)
      in put_obj a ((obj_at s a)\<lparr>elems := take n xs @ replicate (n - length xs) Undefined\<rparr>) s)"

text \<open>
  \<^verbatim>\<open>target[key] = val\<close> for an object \<open>a\<close>, in strict code: an own data property is
  written when it is writable, an own accessor is called, an array takes an element or a
  length, and a key that is not an own property becomes a new data property when the
  object is extensible. Assigning \<^verbatim>\<open>__proto__\<close> is not modelled.
\<close>

definition put_member ::
  "(val \<Rightarrow> 'w state \<Rightarrow> (oid option \<times> 'w state) comp) \<Rightarrow>
   (addr \<Rightarrow> 'w state \<Rightarrow> 'w state comp) \<Rightarrow> 'w env \<Rightarrow> addr \<Rightarrow> pkey \<Rightarrow> val \<Rightarrow> 'w state \<Rightarrow>
   'w state comp" where
  "put_member obs da env a k v s =
     (case own s a k of
        Some (Data v0 e c w) \<Rightarrow>
          if w then Ret (put_own a k (Data v e c w) s) else Throw TypeError
      | Some p \<Rightarrow> call_set obs da env a p v s
      | None \<Rightarrow>
          if arr (obj_at s a) \<and> (k = Name ''length'' \<or> isValidArrayIndex k) then
            (case k of
               Idx i \<Rightarrow>
                 Ret (put_obj a ((obj_at (set_length a (max (Suc i) (length (elems (obj_at s a)))) s) a)
                        \<lparr>elems := (elems (obj_at (set_length a
                           (max (Suc i) (length (elems (obj_at s a)))) s) a))[i := v]\<rparr>) s)
             | Name n \<Rightarrow>
                 (case v of
                    Num l \<Rightarrow> if 0 \<le> l then Ret (set_length a (nat l) s) else Throw RangeError
                  | NaN \<Rightarrow> Throw RangeError
                  | _ \<Rightarrow> Throw Unmodelled))
          else if k = Name ''__proto__'' then Throw Unmodelled
          else if extensible (obj_at s a) then Ret (put_own a k (Data v True True True) s)
          else Throw TypeError)"

section \<open>\<^verbatim>\<open>array.js\<close>\<close>

text \<open>
  The native methods \<^verbatim>\<open>arrayProto[method]\<close>, on an array of the heap. \<^verbatim>\<open>splice\<close>
  returns a new array with the removed elements. Arrays are taken not to be frozen, and
  their length is not bounded.
\<close>

definition ToInteger :: "'w env \<Rightarrow> val \<Rightarrow> int" where
  "ToInteger env v =
     (case v of
        Undefined \<Rightarrow> 0 | Null \<Rightarrow> 0 | Bool b \<Rightarrow> (if b then 1 else 0) | Num n \<Rightarrow> n | NaN \<Rightarrow> 0
      | _ \<Rightarrow> to_integer env v)"

definition new_array :: "val list \<Rightarrow> 'w state \<Rightarrow> addr \<times> 'w state" where
  "new_array xs s =
     (length (objs s),
      s\<lparr>objs := objs s @ [\<lparr>props = [], elems = xs, arr = True, plain = False, vnode = False,
                             extensible = True, proto = ArrayProto\<rparr>]\<rparr>)"

text \<open>Where \<^verbatim>\<open>splice(start, deleteCount, ...)\<close> starts and how many elements it removes.\<close>

definition splice_range :: "'w env \<Rightarrow> val list \<Rightarrow> nat \<Rightarrow> nat \<times> nat" where
  "splice_range env args len =
     (let rs = (case args of [] \<Rightarrow> 0 | x # _ \<Rightarrow> ToInteger env x);
          start = (if rs < 0 then nat (max (int len + rs) 0) else min (nat rs) len);
          dc = (case args of
                  [] \<Rightarrow> 0
                | [x] \<Rightarrow> len - start
                | x # y # _ \<Rightarrow> nat (min (max (ToInteger env y) 0) (int (len - start))))
      in (start, dc))"

definition original ::
  "'w env \<Rightarrow> meth \<Rightarrow> addr \<Rightarrow> val list \<Rightarrow> 'w state \<Rightarrow> (val \<times> 'w state) comp" where
  "original env m a args s =
     (let xs = elems (obj_at s a);
          put = (\<lambda>ys. put_obj a ((obj_at s a)\<lparr>elems := ys\<rparr>) s)
      in if \<not> arr (obj_at s a) then Throw Unmodelled
         else
           (case m of
              Push \<Rightarrow> Ret (Num (int (length xs + length args)), put (xs @ args))
            | Pop \<Rightarrow> if xs = [] then Ret (Undefined, s) else Ret (last xs, put (butlast xs))
            | Shift \<Rightarrow> if xs = [] then Ret (Undefined, s) else Ret (hd xs, put (tl xs))
            | Unshift \<Rightarrow> Ret (Num (int (length args + length xs)), put (args @ xs))
            | Splice \<Rightarrow>
                (let (start, dc) = splice_range env args (length xs);
                     (r, s1) = new_array (take dc (drop start xs))
                                 (put (take start xs @ drop 2 args @ drop (start + dc) xs))
                 in Ret (Ref r, s1))
            | Sort \<Rightarrow> Ret (Ref a, put (native_sort env args xs))
            | Reverse \<Rightarrow> Ret (Ref a, put (rev xs))))"

text \<open>\<^verbatim>\<open>inserted\<close>, as the \<^verbatim>\<open>switch\<close> of lines 33--42 sets it.\<close>

fun inserted :: "meth \<Rightarrow> val list \<Rightarrow> val list option" where
  "inserted Push args = Some args"
| "inserted Unshift args = Some args"
| "inserted Splice args = Some (drop 2 args)"
| "inserted _ args = None"

text \<open>
  \<^verbatim>\<open>mutator (...args)\<close>, lines 27--49 of \<^verbatim>\<open>array.js\<close>, for the method \<open>m\<close> and
  \<^verbatim>\<open>this\<close> the array \<open>a\<close>. When \<^verbatim>\<open>this.__ob__\<close> is not an observer, JavaScript throws
  at \<^verbatim>\<open>ob.observeArray\<close> or at \<^verbatim>\<open>ob.dep\<close>; an object of the heap in its place is
  not modelled.
\<close>

definition mutator ::
  "(val \<Rightarrow> 'w state \<Rightarrow> (oid option \<times> 'w state) comp) \<Rightarrow>
   (addr \<Rightarrow> 'w state \<Rightarrow> 'w state comp) \<Rightarrow> 'w env \<Rightarrow> meth \<Rightarrow> addr \<Rightarrow> val list \<Rightarrow> 'w state \<Rightarrow>
   (val \<times> 'w state) comp" where
  "mutator obs da env m a args s =
     seq (original env m a args s)
       (\<lambda>(result, s1).
          seq (get_member da env a (Name ''__ob__'') s1)
            (\<lambda>(ob, s2).
               case ob of
                 ObRef o1 \<Rightarrow>
                   seq (case inserted m args of
                          None \<Rightarrow> Ret s2
                        | Some items \<Rightarrow> observeArray_args obs items s2)
                     (\<lambda>s3. Ret (result, notify env (ob_dep (observers s3 o1)) s3))
               | Ref b \<Rightarrow> Throw Unmodelled
               | _ \<Rightarrow> Throw TypeError))"

text \<open>
  \<^verbatim>\<open>target.splice(...)\<close> and the like: the method is the array's own property when
  \<^verbatim>\<open>copyAugment\<close> defined it, else it comes from the prototype, which is
  \<^verbatim>\<open>arrayMethods\<close> after \<^verbatim>\<open>protoAugment\<close>.
\<close>

definition call_method ::
  "(val \<Rightarrow> 'w state \<Rightarrow> (oid option \<times> 'w state) comp) \<Rightarrow>
   (addr \<Rightarrow> 'w state \<Rightarrow> 'w state comp) \<Rightarrow> 'w env \<Rightarrow> addr \<Rightarrow> meth \<Rightarrow> val list \<Rightarrow> 'w state \<Rightarrow>
   (val \<times> 'w state) comp" where
  "call_method obs da env a m args s =
     (case own s a (Name (meth_name m)) of
        Some (Data (Method m') e c w) \<Rightarrow> mutator obs da env m' a args s
      | Some p \<Rightarrow> Throw Unmodelled
      | None \<Rightarrow>
          (case proto (obj_at s a) of
             ArrayMethods \<Rightarrow> mutator obs da env m a args s
           | ArrayProto \<Rightarrow> original env m a args s
           | _ \<Rightarrow> Throw TypeError))"


text \<open>
  \<^verbatim>\<open>observe\<close> applied to each value of a list in turn: what the specification says the
  interceptor does with the inserted arguments. It is compared with \<open>observeArray_args\<close>,
  the loop of the source, in \<open>observeArray_args_eq\<close>.
\<close>

fun observe_each ::
  "(val \<Rightarrow> 'w state \<Rightarrow> (oid option \<times> 'w state) comp) \<Rightarrow> val list \<Rightarrow> 'w state \<Rightarrow>
   'w state comp" where
  "observe_each obs [] s = Ret s"
| "observe_each obs (x # xs) s = seq (obs x s) (\<lambda>(r, s'). observe_each obs xs s')"

section \<open>\<^verbatim>\<open>index.js\<close>: \<^verbatim>\<open>set\<close>\<close>

text \<open>
  \<^verbatim>\<open>set(target, key, val)\<close>, lines 254--284. For a target that is not an object,
  \<^verbatim>\<open>key in target\<close> throws. Where \<^verbatim>\<open>target.__ob__\<close> is a value other than an observer,
  \<^verbatim>\<open>ob.value\<close> is \<^verbatim>\<open>undefined\<close> and \<^verbatim>\<open>defineReactive\<close> throws; an object of the heap
  in the place of the observer is not modelled.
\<close>

definition root_warning :: string where
  "root_warning = ''Avoid adding reactive properties to a Vue instance or its root $data at runtime - declare it upfront in the data option.''"

definition primitive_warning :: string where
  "primitive_warning = ''Cannot set reactive property on undefined, null, or primitive value''"

definition set_prop ::
  "(val \<Rightarrow> 'w state \<Rightarrow> (oid option \<times> 'w state) comp) \<Rightarrow>
   (addr \<Rightarrow> 'w state \<Rightarrow> 'w state comp) \<Rightarrow> 'w env \<Rightarrow> val \<Rightarrow> pkey \<Rightarrow> val \<Rightarrow> 'w state \<Rightarrow>
   (val \<times> 'w state) comp" where
  "set_prop obs da env tgt key v s =
     (let s0 = (if \<not> production env \<and> (isUndef tgt \<or> isPrimitive tgt)
                then warn primitive_warning s else s)
      in case tgt of
           Ref a \<Rightarrow>
             if arr (obj_at s0 a) \<and> isValidArrayIndex key then
               (case key of
                  Idx i \<Rightarrow>
                    seq (call_method obs da env a Splice [Num (int i), Num 1, v]
                           (set_length a (max (length (elems (obj_at s0 a))) i) s0))
                      (\<lambda>(r, s1). Ret (v, s1))
                | Name n \<Rightarrow> Throw Unmodelled)
             else if has_property env s0 a key \<and> \<not> in_proto env ObjectProto key then
               seq (put_member obs da env a key v s0) (\<lambda>s1. Ret (v, s1))
             else
               seq (get_member da env a (Name ''__ob__'') s0)
                 (\<lambda>(ob, s1).
                    seq (get_member da env a (Name ''_isVue'') s1)
                      (\<lambda>(isVue, s2).
                         if truthy isVue \<or>
                            (case ob of ObRef o1 \<Rightarrow> vmCount (observers s2 o1) \<noteq> 0 | _ \<Rightarrow> False)
                         then Ret (v, if \<not> production env then warn root_warning s2 else s2)
                         else if \<not> truthy ob then
                           seq (put_member obs da env a key v s2) (\<lambda>s3. Ret (v, s3))
                         else
                           (case ob of
                              ObRef o1 \<Rightarrow>
                                seq (defineReactive obs da env (ob_value (observers s2 o1)) key
                                       (Some v) None False s2)
                                  (\<lambda>s3. Ret (v, notify env (ob_dep (observers s3 o1)) s3))
                            | Ref b \<Rightarrow> Throw Unmodelled
                            | _ \<Rightarrow> Throw TypeError)))
         | Undefined \<Rightarrow> Throw TypeError
         | Null \<Rightarrow> Throw TypeError
         | Bool b \<Rightarrow> Throw TypeError
         | Num n \<Rightarrow> Throw TypeError
         | NaN \<Rightarrow> Throw TypeError
         | Str t \<Rightarrow> Throw TypeError
         | _ \<Rightarrow> Throw Unmodelled)"

section \<open>Observed and root-tracked objects\<close>

text \<open>The observer that the hidden field \<^verbatim>\<open>__ob__\<close> of an object holds.\<close>

definition ob_marker :: "obj \<Rightarrow> oid option" where
  "ob_marker ob =
     (case map_of (props ob) (Name ''__ob__'') of
        Some (Data (ObRef b) e c w) \<Rightarrow> Some b
      | _ \<Rightarrow> None)"

definition marker :: "'w state \<Rightarrow> addr \<Rightarrow> oid option" where
  "marker s a = ob_marker (obj_at s a)"

text \<open>
  A member \<open>n\<close> of the object \<open>a\<close> is quiet when it is an own data property or no own
  property at all: reading it runs no code. \<open>peek\<close> is what the read gives.
\<close>

definition quiet :: "'w state \<Rightarrow> addr \<Rightarrow> string \<Rightarrow> bool" where
  "quiet s a n =
     (case own s a (Name n) of None \<Rightarrow> True | Some (Data v e c w) \<Rightarrow> True | _ \<Rightarrow> False)"

definition peek :: "'w env \<Rightarrow> 'w state \<Rightarrow> addr \<Rightarrow> string \<Rightarrow> val" where
  "peek env s a n =
     (case own s a (Name n) of
        Some (Data v e c w) \<Rightarrow> v
      | _ \<Rightarrow> inherited env (proto (obj_at s a)) (Name n))"

text \<open>
  A root-tracked target: \<^verbatim>\<open>target._isVue\<close> is set, or \<^verbatim>\<open>target.__ob__\<close> is an
  observer whose \<^verbatim>\<open>vmCount\<close> is not zero.
\<close>

definition root_tracked :: "'w env \<Rightarrow> 'w state \<Rightarrow> addr \<Rightarrow> bool" where
  "root_tracked env s a =
     (quiet s a ''__ob__'' \<and> quiet s a ''_isVue'' \<and>
      (truthy (peek env s a ''_isVue'') \<or>
       (case peek env s a ''__ob__'' of ObRef b \<Rightarrow> vmCount (observers s b) \<noteq> 0 | _ \<Rightarrow> False)))"

text \<open>Between \<open>s\<close> and \<open>s'\<close> the trace has grown by calls of \<^verbatim>\<open>addDep\<close> only.\<close>

definition only_depends :: "'w state \<Rightarrow> 'w state \<Rightarrow> bool" where
  "only_depends s s' =
     (\<exists>es. trace s' = trace s @ es \<and> notifications_of es = [] \<and> updates_of es = [] \<and>
           warnings_of es = [])"

section \<open>Plain data and what observation leaves alone\<close>

fun is_observer :: "val \<Rightarrow> bool" where
  "is_observer (ObRef b) = True"
| "is_observer _ = False"

fun plain_data :: "property \<Rightarrow> bool" where
  "plain_data (Data v e c w) = (\<not> is_observer v)"
| "plain_data _ = False"

definition data_only :: "obj \<Rightarrow> bool" where
  "data_only ob =
     (distinct (map fst (props ob)) \<and> list_all (\<lambda>kp. plain_data (snd kp)) (props ob) \<and>
      list_all (\<lambda>v. \<not> is_observer v) (elems ob))"

definition plain_heap :: "'w state \<Rightarrow> bool" where
  "plain_heap s = list_all (\<lambda>ob. ob_marker ob \<noteq> None \<or> data_only ob) (objs s)"

definition unmarked :: "'w state \<Rightarrow> nat" where
  "unmarked s = length (filter (\<lambda>ob. ob_marker ob = None) (objs s))"

definition frame :: "addr set \<Rightarrow> 'w state \<Rightarrow> 'w state \<Rightarrow> bool" where
  "frame A s s' =
     (length (objs s') = length (objs s) \<and>
      (\<forall>b. b \<notin> A \<longrightarrow> marker s b \<noteq> None \<longrightarrow> obj_at s' b = obj_at s b) \<and>
      (\<forall>b. marker s b \<noteq> None \<longrightarrow> marker s' b = marker s b) \<and>
      (\<forall>b. elems (obj_at s' b) = elems (obj_at s b) \<and> arr (obj_at s' b) = arr (obj_at s b) \<and>
           plain (obj_at s' b) = plain (obj_at s b) \<and> vnode (obj_at s' b) = vnode (obj_at s b) \<and>
           extensible (obj_at s' b) = extensible (obj_at s b)) \<and>
      trace s' = trace s \<and> target s' = target s \<and> targetStack s' = targetStack s \<and>
      shouldObserve s' = shouldObserve s \<and> world s' = world s \<and>
      uid s \<le> uid s' \<and> (\<forall>d < uid s. deps s' d = deps s d) \<and>
      nobs s \<le> nobs s' \<and> (\<forall>b < nobs s. observers s' b = observers s b) \<and>
      ncells s \<le> ncells s' \<and> (\<forall>c < ncells s. cells s' c = cells s c))"

definition observable :: "'w env \<Rightarrow> 'w state \<Rightarrow> addr \<Rightarrow> bool" where
  "observable env s a =
     (\<not> vnode (obj_at s a) \<and> shouldObserve s \<and> \<not> serverRendering env \<and>
      (arr (obj_at s a) \<or> isPlainObject s a) \<and> extensible (obj_at s a) \<and>
      \<not> truthy (peek env s a ''_isVue''))"

definition good ::
  "'w env \<Rightarrow> nat \<Rightarrow> (val \<Rightarrow> 'w state \<Rightarrow> (oid option \<times> 'w state) comp) \<Rightarrow> bool" where
  "good env n obs =
     (\<forall>v s. plain_heap s \<longrightarrow> unmarked s < n \<longrightarrow> \<not> is_observer v \<longrightarrow>
        (\<exists>r s'. obs v s = Ret (r, s') \<and> frame {} s s' \<and> plain_heap s' \<and>
           (\<forall>a. v = Ref a \<longrightarrow> \<not> vnode (obj_at s a) \<longrightarrow> r = marker s' a) \<and>
           (\<forall>a. v = Ref a \<longrightarrow> observable env s a \<longrightarrow> r \<noteq> None)))"

text \<open>The state after \<^verbatim>\<open>new Dep()\<close>.\<close>

definition after_Dep :: "'w state \<Rightarrow> 'w state" where
  "after_Dep s = snd (Dep_new s)"

text \<open>The state after \<^verbatim>\<open>new Observer(value)\<close> has attached itself to the object \<open>a\<close>.\<close>

definition attached :: "addr \<Rightarrow> 'w state \<Rightarrow> 'w state" where
  "attached a s =
     def_prop a (Name ''__ob__'') (ObRef (nobs s))
       ((after_Dep s)\<lparr>observers := (observers (after_Dep s))
           (nobs s := \<lparr>ob_value = a, ob_dep = uid s, vmCount = 0\<rparr>), nobs := Suc (nobs s)\<rparr>)"

definition idxs :: "pkey list \<Rightarrow> nat list" where
  "idxs ks = concat (map (\<lambda>k. case k of Idx i \<Rightarrow> [i] | Name n \<Rightarrow> []) ks)"

text \<open>
  The state in which the array \<open>a\<close> holds the elements \<open>ys\<close> and the objects \<open>ex\<close> have been
  allocated: what a native array method leaves behind.
\<close>

definition relisted :: "addr \<Rightarrow> val list \<Rightarrow> obj list \<Rightarrow> 'w state \<Rightarrow> 'w state" where
  "relisted a ys ex s = s\<lparr>objs := (objs s)[a := (obj_at s a)\<lparr>elems := ys\<rparr>] @ ex\<rparr>"

section \<open>Facts about \<^verbatim>\<open>dep.js\<close>\<close>

lemma trace_external [simp]: "trace (external f s) = trace s"
  by (simp add: external_def)

lemma trace_emit [simp]: "trace (emit e s) = trace s @ [e]"
  by (simp add: emit_def)

lemma updates_of_append [simp]: "updates_of (xs @ ys) = updates_of xs @ updates_of ys"
  by (induction xs rule: updates_of.induct) simp_all

lemma notifications_of_append [simp]:
  "notifications_of (xs @ ys) = notifications_of xs @ notifications_of ys"
  by (induction xs rule: notifications_of.induct) simp_all

lemma warnings_of_append [simp]: "warnings_of (xs @ ys) = warnings_of xs @ warnings_of ys"
  by (induction xs rule: warnings_of.induct) simp_all

lemma depends_of_append [simp]: "depends_of (xs @ ys) = depends_of xs @ depends_of ys"
  by (induction xs rule: depends_of.induct) simp_all

lemma updates_of_map_Updated [simp]: "updates_of (map Updated ws) = ws"
  by (induction ws) simp_all

lemma notifications_of_map_Updated [simp]: "notifications_of (map Updated ws) = []"
  by (induction ws) simp_all

lemma warnings_of_map_Updated [simp]: "warnings_of (map Updated ws) = []"
  by (induction ws) simp_all

lemma depends_of_map_Updated [simp]: "depends_of (map Updated ws) = []"
  by (induction ws) simp_all

lemma added_append [simp]: "trace s' = trace s @ es \<Longrightarrow> added s s' = es"
  by (simp add: added_def)

lemma trace_dispatch: "trace (dispatch env ws s) = trace s @ map Updated ws"
  by (induction ws arbitrary: s) simp_all

lemma trace_notify:
  "trace (notify env d s) = trace s @ Notified d # map Updated (stabilize env (subs (deps s d)))"
  by (simp add: notify_def trace_dispatch)


section \<open>Concrete configurations\<close>

text \<open>
  A development build with synchronous notification, the same as a production build, and
  the development build with \<^verbatim>\<open>config.async\<close> on.
  Watcher \<open>w\<close> has the id \<open>w\<close>; \<^verbatim>\<open>addDep\<close> subscribes the watcher to the dep, as
  the watcher of the repository does; \<^verbatim>\<open>update\<close> does nothing.
\<close>

definition dev_env :: "unit env" where
  "dev_env =
     \<lparr>production = False, async = False, serverRendering = False, hasProto = True,
      objectProtoKeys = (\<lambda>k. k \<in> set [Name ''constructor'', Name ''toString'',
        Name ''valueOf'', Name ''hasOwnProperty'', Name ''__proto__'']),
      arrayProtoKeys = (\<lambda>k. k \<in> set [Name ''length'', Name ''push'', Name ''pop'',
        Name ''shift'', Name ''unshift'', Name ''splice'', Name ''sort'', Name ''reverse'']),
      watcher_id = int,
      update = (\<lambda>w s. s),
      addDep = (\<lambda>w d s. addSub d w s),
      user_get = (\<lambda>f a s. (Undefined, s)),
      user_set = (\<lambda>f a v s. s),
      user_call = (\<lambda>f s. s),
      native_sort = (\<lambda>args xs. xs),
      to_integer = (\<lambda>v. 0)\<rparr>"

definition prod_env :: "unit env" where
  "prod_env = dev_env\<lparr>production := True\<rparr>"

definition async_env :: "unit env" where
  "async_env = dev_env\<lparr>async := True\<rparr>"

text \<open>
  A consumer that changes the subscriber list while it is notified: when watcher \<open>2\<close> is
  updated it unsubscribes watcher \<open>5\<close> from dep \<open>0\<close> and subscribes watcher \<open>7\<close>.
\<close>

definition resub_env :: "unit env" where
  "resub_env =
     dev_env\<lparr>update := (\<lambda>w s. if w = 2 then addSub 0 7 (removeSub 0 5 s) else s)\<rparr>"

definition empty_state :: "unit state" where
  "empty_state =
     \<lparr>objs = [], observers = (\<lambda>_. \<lparr>ob_value = 0, ob_dep = 0, vmCount = 0\<rparr>), nobs = 0,
      deps = (\<lambda>_. \<lparr>dep_id = 0, subs = []\<rparr>), uid = 0,
      cells = (\<lambda>_. \<lparr>c_val = Undefined, c_childOb = None\<rparr>), ncells = 0,
      target = None, targetStack = [], shouldObserve = True, trace = [], world = ()\<rparr>"

text \<open>Object and array literals, and the state in which a computation ends.\<close>

definition plain_object :: "(pkey \<times> property) list \<Rightarrow> obj" where
  "plain_object ps = \<lparr>props = ps, elems = [], arr = False, plain = True, vnode = False,
     extensible = True, proto = ObjectProto\<rparr>"

definition array_object :: "val list \<Rightarrow> obj" where
  "array_object xs = \<lparr>props = [], elems = xs, arr = True, plain = False, vnode = False,
     extensible = True, proto = ArrayProto\<rparr>"

definition field :: "string \<Rightarrow> val \<Rightarrow> pkey \<times> property" where
  "field n v = (Name n, Data v True True True)"

definition final :: "('a \<times> 'w state) comp \<Rightarrow> 'w state \<Rightarrow> 'w state" where
  "final m s = (case m of Ret (r, s') \<Rightarrow> s' | _ \<Rightarrow> s)"

text \<open>
  \<^verbatim>\<open>const data = { a: 1 }; observe(data, true)\<close>: the object at address \<open>0\<close> becomes the
  root data of one instance.
\<close>

definition data_a1 :: "unit state" where
  "data_a1 = empty_state\<lparr>objs := [plain_object [field ''a'' (Num 1)]]\<rparr>"

definition root_a1 :: "unit state" where
  "root_a1 = final (observe 2 dev_env (Ref 0) True data_a1) data_a1"




text \<open>
  \<^verbatim>\<open>const list = [1]; observe(list)\<close>, beside two plain objects \<^verbatim>\<open>{ x: 1 }\<close> and \<^verbatim>\<open>{ y: 2 }\<close>
  that are not observed.
\<close>

definition list_and_two :: "unit state" where
  "list_and_two =
     final (observe 2 dev_env (Ref 0) False
        (empty_state\<lparr>objs := [array_object [Num 1], plain_object [field ''x'' (Num 1)],
           plain_object [field ''y'' (Num 2)]]\<rparr>)) empty_state"

text \<open>\<^verbatim>\<open>const data = { a: NaN }; observe(data)\<close>.\<close>

definition reactive_nan :: "unit state" where
  "reactive_nan =
     final (observe 2 dev_env (Ref 0) False (empty_state\<lparr>objs := [plain_object [field ''a'' NaN]]\<rparr>))
       empty_state"




text \<open>One dep, to which the watchers \<open>5\<close> and then \<open>2\<close> have subscribed.\<close>

definition two_subs :: "unit state" where
  "two_subs = addSub 0 2 (addSub 0 5 (snd (Dep_new empty_state)))"

section \<open>The order of notification\<close>

text \<open>
  C2, as stated: in a production build \<^verbatim>\<open>notify\<close> does not sort, whatever
  \<^verbatim>\<open>config.async\<close> is. With synchronous notification configured, the watcher with id
  \<open>5\<close> is updated before the watcher with id \<open>2\<close>.
\<close>

theorem notify_production_unsorted:
  "\<not> async prod_env \<and> subs (deps two_subs 0) = [5, 2] \<and>
   updates_of (added two_subs (notify prod_env 0 two_subs)) = [5, 2] \<and>
   watcher_id prod_env 2 < watcher_id prod_env 5"
  by (simp add: trace_notify stabilize_def prod_env_def dev_env_def two_subs_def
      addSub_def Dep_new_def empty_state_def)

text \<open>
  C2, amended: in a build that is not a production build and with \<^verbatim>\<open>config.async\<close>
  off, one call of \<^verbatim>\<open>notify\<close> calls \<^verbatim>\<open>update\<close> on exactly the subscribers of the
  snapshot, in ascending order of their ids; in a production build, or with
  \<^verbatim>\<open>config.async\<close> on, it calls \<^verbatim>\<open>update\<close> on them in the order in which they
  subscribed. Both hold whatever the updated consumers do.
\<close>

theorem notify_order:
  "(\<not> production env \<and> \<not> async env \<longrightarrow>
      updates_of (added s (notify env d s)) = sort_key (watcher_id env) (subs (deps s d)) \<and>
      sorted (map (watcher_id env) (updates_of (added s (notify env d s))))) \<and>
   (production env \<or> async env \<longrightarrow>
      updates_of (added s (notify env d s)) = subs (deps s d))"
  by (auto simp add: trace_notify stabilize_def)

theorem notify_order_witness:
  "\<not> production dev_env \<and> \<not> async dev_env \<and> production prod_env \<and> async async_env \<and>
   subs (deps two_subs 0) = [5, 2] \<and>
   updates_of (added two_subs (notify dev_env 0 two_subs)) = [2, 5] \<and>
   updates_of (added two_subs (notify prod_env 0 two_subs)) = [5, 2] \<and>
   updates_of (added two_subs (notify async_env 0 two_subs)) = [5, 2]"
proof -
  have e: "\<not> production dev_env" "\<not> async dev_env" "production prod_env" "async async_env"
    by (simp_all add: dev_env_def prod_env_def async_env_def)
  have s0: "subs (deps two_subs 0) = [5, 2]"
    by (simp add: two_subs_def addSub_def Dep_new_def empty_state_def)
  have w: "watcher_id dev_env = int"
    by (simp add: dev_env_def)
  from notify_order [of dev_env two_subs 0] notify_order [of prod_env two_subs 0]
    notify_order [of async_env two_subs 0] e s0 w
  show ?thesis by simp
qed

section \<open>The snapshot of the subscribers\<close>

text \<open>
  C8: one call of \<^verbatim>\<open>notify\<close> calls \<^verbatim>\<open>update\<close> on the subscribers that the dep has
  when \<^verbatim>\<open>notify\<close> is called: on each of them as often as it is in the list, on no
  other consumer, in the order of the list or, where the copy is sorted, in the order of
  the ids. This holds for every \<^verbatim>\<open>update\<close>, so also for consumers that subscribe or
  unsubscribe during the pass; what they change is the subscriber list of the state
  after the pass, and the next call of \<^verbatim>\<open>notify\<close> dispatches to that list.
\<close>

theorem notify_snapshot:
  "mset (updates_of (added s (notify env d s))) = mset (subs (deps s d)) \<and>
   updates_of (added s (notify env d s)) =
     (if \<not> production env \<and> \<not> async env
      then sort_key (watcher_id env) (subs (deps s d)) else subs (deps s d)) \<and>
   mset (updates_of (added (notify env d s) (notify env d (notify env d s)))) =
     mset (subs (deps (notify env d s) d)) \<and>
   updates_of (added (notify env d s) (notify env d (notify env d s))) =
     (if \<not> production env \<and> \<not> async env
      then sort_key (watcher_id env) (subs (deps (notify env d s) d))
      else subs (deps (notify env d s) d))"
  by (simp add: trace_notify stabilize_def)

text \<open>
  The consumer \<open>2\<close> unsubscribes \<open>5\<close> and subscribes \<open>7\<close> while it is updated: in the
  pass in which this happens \<open>5\<close> is still updated and \<open>7\<close> is not, with and without
  the sorting; in the next pass it is the other way round.
\<close>

theorem notify_snapshot_witness:
  "subs (deps two_subs 0) = [5, 2] \<and>
   updates_of (added two_subs (notify resub_env 0 two_subs)) = [2, 5] \<and>
   subs (deps (notify resub_env 0 two_subs) 0) = [2, 7] \<and>
   updates_of (added (notify resub_env 0 two_subs)
     (notify resub_env 0 (notify resub_env 0 two_subs))) = [2, 7] \<and>
   updates_of (added two_subs (notify (resub_env\<lparr>async := True\<rparr>) 0 two_subs)) = [5, 2] \<and>
   subs (deps (notify (resub_env\<lparr>async := True\<rparr>) 0 two_subs) 0) = [2, 7]"
proof -
  have s0: "subs (deps two_subs 0) = [5, 2]"
    by (simp add: two_subs_def addSub_def Dep_new_def empty_state_def)
  have e: "\<not> production resub_env" "\<not> async resub_env" "watcher_id resub_env = int"
    by (simp_all add: resub_env_def dev_env_def)
  have st: "stabilize resub_env [5, 2] = [2, 5]"
    "stabilize (resub_env\<lparr>async := True\<rparr>) [5, 2] = [5, 2]"
    by (simp_all add: stabilize_def e)
  have s1: "subs (deps (notify resub_env 0 two_subs) 0) = [2, 7]"
    by (simp add: notify_def s0 st)
       (simp add: resub_env_def dev_env_def external_def emit_def addSub_def removeSub_def
          remove_def two_subs_def Dep_new_def empty_state_def)
  have s2: "subs (deps (notify (resub_env\<lparr>async := True\<rparr>) 0 two_subs) 0) = [2, 7]"
    by (simp add: notify_def s0 st)
       (simp add: resub_env_def dev_env_def external_def emit_def addSub_def removeSub_def
          remove_def two_subs_def Dep_new_def empty_state_def)
  from notify_snapshot [of two_subs resub_env 0]
    notify_snapshot [of two_subs "resub_env\<lparr>async := True\<rparr>" 0] s0 s1 s2 e
  show ?thesis by simp
qed

section \<open>Facts about reading and writing\<close>

lemma seq_Ret [simp]: "seq (Ret x) f = f x"
  by (simp add: seq_def)

lemma seq_Throw [simp]: "seq (Throw e) f = Throw e"
  by (simp add: seq_def)

lemma seq_Diverge [simp]: "seq Diverge f = Diverge"
  by (simp add: seq_def)

lemma descriptor_own [simp]:
  "own s a k = Some p \<Longrightarrow> getOwnPropertyDescriptor s a k = Some p"
  by (simp add: getOwnPropertyDescriptor_def)

lemma get_member_data [simp]:
  "own s a k = Some (Data v e c w) \<Longrightarrow> get_member da env a k s = Ret (v, s)"
  by (simp add: get_member_def)

lemma marker_SomeD:
  "marker s a = Some ob \<Longrightarrow> \<exists>e c w. own s a (Name ''__ob__'') = Some (Data (ObRef ob) e c w)"
  by (simp add: marker_def ob_marker_def own_def split: option.splits property.splits val.splits)

lemma get_member_quiet:
  assumes "quiet s a n" and "n \<noteq> ''length''"
  shows "get_member da env a (Name n) s = Ret (peek env s a n, s)"
proof (cases "own s a (Name n)")
  case None
  with assms(2) show ?thesis
    by (simp add: peek_def get_member_def getOwnPropertyDescriptor_def)
next
  case (Some p)
  with assms(1) obtain v e c w where "p = Data v e c w"
    by (cases p) (simp_all add: quiet_def)
  with Some show ?thesis
    by (simp add: peek_def)
qed

lemma set_prop_Ref:
  "set_prop obs da env (Ref a) key v s =
     (if arr (obj_at s a) \<and> isValidArrayIndex key then
        (case key of
           Idx i \<Rightarrow>
             seq (call_method obs da env a Splice [Num (int i), Num 1, v]
                    (set_length a (max (length (elems (obj_at s a))) i) s))
               (\<lambda>(r, s1). Ret (v, s1))
         | Name n \<Rightarrow> Throw Unmodelled)
      else if has_property env s a key \<and> \<not> in_proto env ObjectProto key then
        seq (put_member obs da env a key v s) (\<lambda>s1. Ret (v, s1))
      else
        seq (get_member da env a (Name ''__ob__'') s)
          (\<lambda>(ob, s1).
             seq (get_member da env a (Name ''_isVue'') s1)
               (\<lambda>(isVue, s2).
                  if truthy isVue \<or>
                     (case ob of ObRef o1 \<Rightarrow> vmCount (observers s2 o1) \<noteq> 0 | _ \<Rightarrow> False)
                  then Ret (v, if \<not> production env then warn root_warning s2 else s2)
                  else if \<not> truthy ob then
                    seq (put_member obs da env a key v s2) (\<lambda>s3. Ret (v, s3))
                  else
                    (case ob of
                       ObRef o1 \<Rightarrow>
                         seq (defineReactive obs da env (ob_value (observers s2 o1)) key
                                (Some v) None False s2)
                           (\<lambda>s3. Ret (v, notify env (ob_dep (observers s3 o1)) s3))
                     | Ref b \<Rightarrow> Throw Unmodelled
                     | _ \<Rightarrow> Throw TypeError))))"
  by (simp add: set_prop_def isUndef_def)

section \<open>Reading a property adds no notification\<close>

lemma seq_RetD: "seq m f = Ret y \<Longrightarrow> \<exists>x. m = Ret x \<and> f x = Ret y"
  by (cases m) (simp_all add: seq_def)

lemma call_get_Reactive:
  "call_get da env a (Reactive c d prev cust sh) s =
     seq (current_value da env a c prev s) (\<lambda>(v, s1). collect da env c d v s1)"
  by (simp add: current_value_def)

declare call_get.simps(3) [simp del]

lemma only_depends_refl [simp]: "only_depends s s"
  by (simp add: only_depends_def)

lemma only_depends_trans: "only_depends s t \<Longrightarrow> only_depends t u \<Longrightarrow> only_depends s u"
  by (auto simp: only_depends_def)

lemma only_depends_trace: "trace s' = trace s \<Longrightarrow> only_depends s s'"
  by (simp add: only_depends_def)

lemma only_depends_depend [simp]: "only_depends s (depend env d s)"
  by (simp add: depend_def only_depends_def split: option.splits)

lemma only_depends_user_getter [simp]: "only_depends s (snd (user_getter env f a s))"
  by (simp add: user_getter_def only_depends_def)

lemma only_depends_added:
  "only_depends s s' \<Longrightarrow> notifications_of (added s s') = [] \<and> updates_of (added s s') = [] \<and>
     warnings_of (added s s') = []"
  by (auto simp: only_depends_def)

lemma collect_None: "target s = None \<Longrightarrow> collect da env c d v s = Ret (v, s)"
  by (simp add: collect_def)

lemma collect_Some:
  "target s = Some w \<Longrightarrow>
   collect da env c d v s =
     (case c_childOb (cells (depend env d s) c) of
        None \<Rightarrow> Ret (v, depend env d s)
      | Some ob \<Rightarrow>
          (case v of
             Ref b \<Rightarrow>
               if arr (obj_at (depend env (ob_dep (observers (depend env d s) ob)) (depend env d s)) b)
               then seq (da b (depend env (ob_dep (observers (depend env d s) ob)) (depend env d s)))
                      (\<lambda>s4. Ret (v, s4))
               else Ret (v, depend env (ob_dep (observers (depend env d s) ob)) (depend env d s))
           | _ \<Rightarrow> Ret (v, depend env (ob_dep (observers (depend env d s) ob)) (depend env d s))))"
  by (simp add: collect_def Let_def split: option.splits)

lemma collect_only_depends:
  assumes da: "\<And>b t t'. da b t = Ret t' \<Longrightarrow> only_depends t t'"
    and "collect da env c d v s = Ret (v', s')"
  shows "only_depends s s' \<and> v' = v"
proof (cases "target s")
  case None
  with assms(2) show ?thesis by (simp add: collect_None)
next
  case (Some w)
  note eq = assms(2) [unfolded collect_Some [OF Some]]
  let ?s2 = "depend env d s"
  have 2: "only_depends s ?s2" by simp
  show ?thesis
  proof (cases "c_childOb (cells ?s2 c)")
    case None
    with eq 2 show ?thesis by auto
  next
    case ob: (Some ob)
    let ?s3 = "depend env (ob_dep (observers ?s2 ob)) ?s2"
    have 3: "only_depends s ?s3"
      using 2 only_depends_depend by (rule only_depends_trans)
    show ?thesis
    proof (cases "\<exists>b. v = Ref b \<and> arr (obj_at ?s3 b)")
      case True
      then obtain b where b: "v = Ref b" "arr (obj_at ?s3 b)" by blast
      with eq ob have "seq (da b ?s3) (\<lambda>s4. Ret (v, s4)) = Ret (v', s')"
        by simp
      then obtain s4 where "da b ?s3 = Ret s4" "s' = s4" "v' = v"
        by (auto dest!: seq_RetD)
      with da [of b ?s3 s4] 3 show ?thesis
        by (auto intro: only_depends_trans)
    next
      case False
      with eq ob have "s' = ?s3 \<and> v' = v"
        by (cases v) auto
      with 3 show ?thesis by simp
    qed
  qed
qed

lemma call_get_only_depends:
  assumes "\<And>b t t'. da b t = Ret t' \<Longrightarrow> only_depends t t'"
    and "call_get da env a p s = Ret (v, s')"
  shows "only_depends s s'"
  using assms
proof (induction da env a p s arbitrary: v s' rule: call_get.induct)
  case (1 da env a v0 e c w s)
  then show ?case by simp
next
  case (2 da env a g st e c s)
  then show ?case
    by (cases g) (auto simp: prod_eq_iff only_depends_trace user_getter_def)
next
  case (3 da env a c d prev cust sh s)
  note da = "3.prems"(1)
  from "3.prems"(2) [unfolded call_get_Reactive] obtain v1 s1 where
    cur: "current_value da env a c prev s = Ret (v1, s1)" and
    col: "collect da env c d v1 s1 = Ret (v, s')"
    by (auto dest!: seq_RetD)
  have "only_depends s s1"
  proof (cases prev)
    case None
    with cur show ?thesis by (simp add: current_value_def)
  next
    case (Some p)
    show ?thesis
    proof (cases p)
      case (Data x1 x2 x3 x4)
      with Some cur show ?thesis by (simp add: current_value_def)
    next
      case (Accessor g st e cf)
      with Some cur show ?thesis
        by (cases g) (auto simp add: current_value_def prod_eq_iff)
    next
      case (Reactive c' d' prev' cust' sh')
      with Some cur have "call_get da env a (Reactive c' d' prev' cust' sh') s = Ret (v1, s1)"
        by (simp add: current_value_def)
      with "3.IH" [OF Some Reactive da] show ?thesis by simp
    qed
  qed
  moreover from collect_only_depends [OF da col] have "only_depends s1 s'"
    by simp
  ultimately show ?case by (rule only_depends_trans)
qed

lemma get_member_only_depends:
  assumes "\<And>b t t'. da b t = Ret t' \<Longrightarrow> only_depends t t'"
    and "get_member da env a k s = Ret (v, s')"
  shows "only_depends s s'"
proof (cases "getOwnPropertyDescriptor s a k")
  case None
  with assms(2) show ?thesis by (simp add: get_member_def)
next
  case (Some p)
  with assms(2) have "call_get da env a p s = Ret (v, s')"
    by (simp add: get_member_def)
  with assms(1) show ?thesis by (rule call_get_only_depends)
qed

lemma get_ob_only_depends:
  assumes "\<And>b t t'. da b t = Ret t' \<Longrightarrow> only_depends t t'"
    and "get_ob da env e s = Ret (v, s')"
  shows "only_depends s s'"
proof (cases "\<exists>b. e = Ref b")
  case True
  with assms(2) obtain b where "get_member da env b (Name ''__ob__'') s = Ret (v, s')"
    by (auto simp: get_ob_def)
  with assms(1) show ?thesis by (rule get_member_only_depends)
next
  case False
  with assms(2) show ?thesis by (cases e) (simp_all add: get_ob_def)
qed

lemma dependArray_loop_only_depends:
  assumes "\<And>b t t'. da b t = Ret t' \<Longrightarrow> only_depends t t'"
    and "dependArray_loop da env a i k s = Ret s'"
  shows "only_depends s s'"
  using assms(2)
proof (induction k arbitrary: i s)
  case 0
  then show ?case by simp
next
  case (Suc k)
  let ?e = "elem_at s a i"
  from Suc.prems obtain s3 s4 where
    1: "(if truthy ?e then
             seq (get_ob da env ?e s)
               (\<lambda>(r1, s1).
                  if truthy r1 then
                    seq (get_ob da env ?e s1)
                      (\<lambda>(r2, s2).
                         case r2 of
                           ObRef ob \<Rightarrow> Ret (depend env (ob_dep (observers s2 ob)) s2)
                         | _ \<Rightarrow> Throw TypeError)
                  else Ret s1)
           else Ret s) = Ret s3" and
    2: "(case ?e of
           Ref b \<Rightarrow> if arr (obj_at s3 b) then da b s3 else Ret s3
         | _ \<Rightarrow> Ret s3) = Ret s4" and
    3: "dependArray_loop da env a (Suc i) k s4 = Ret s'"
    by (auto simp: Let_def dest!: seq_RetD)
  have a: "only_depends s s3"
  proof (cases "truthy ?e")
    case False
    with 1 show ?thesis by simp
  next
    case True
    with 1 obtain r1 s1 where g1: "get_ob da env ?e s = Ret (r1, s1)"
      and r: "(if truthy r1 then
                    seq (get_ob da env ?e s1)
                      (\<lambda>(r2, s2).
                         case r2 of
                           ObRef ob \<Rightarrow> Ret (depend env (ob_dep (observers s2 ob)) s2)
                         | _ \<Rightarrow> Throw TypeError)
                  else Ret s1) = Ret s3"
      by (auto dest!: seq_RetD)
    from assms(1) g1 have o1: "only_depends s s1" by (rule get_ob_only_depends)
    show ?thesis
    proof (cases "truthy r1")
      case False
      with r o1 show ?thesis by simp
    next
      case True
      with r obtain r2 s2 where g2: "get_ob da env ?e s1 = Ret (r2, s2)"
        and c: "(case r2 of
                   ObRef ob \<Rightarrow> Ret (depend env (ob_dep (observers s2 ob)) s2)
                 | _ \<Rightarrow> Throw TypeError) = Ret s3"
        by (auto dest!: seq_RetD)
      from assms(1) g2 have o2: "only_depends s1 s2" by (rule get_ob_only_depends)
      from c obtain ob where "s3 = depend env (ob_dep (observers s2 ob)) s2"
        by (cases r2) auto
      then have "only_depends s2 s3" by simp
      with o1 o2 show ?thesis by (blast intro: only_depends_trans)
    qed
  qed
  have b: "only_depends s3 s4"
  proof (cases "\<exists>b. ?e = Ref b \<and> arr (obj_at s3 b)")
    case True
    with 2 obtain b where "da b s3 = Ret s4" by auto
    then show ?thesis by (rule assms(1))
  next
    case False
    with 2 have "s4 = s3" by (cases ?e) (auto split: if_splits)
    then show ?thesis by simp
  qed
  from Suc.IH [OF 3] a b show ?case by (blast intro: only_depends_trans)
qed

lemma dependArray_only_depends:
  "dependArray n env a s = Ret s' \<Longrightarrow> only_depends s s'"
proof (induction n arbitrary: a s s')
  case 0
  then show ?case by simp
next
  case (Suc n)
  from Suc.prems have
    "dependArray_loop (dependArray n env) env a 0 (length (elems (obj_at s a))) s = Ret s'"
    by simp
  with Suc.IH show ?case by (rule dependArray_loop_only_depends)
qed

lemma current_value_only_depends:
  assumes "current_value (dependArray n env) env a c prev s = Ret (v, s')"
  shows "only_depends s s'"
proof (cases prev)
  case None
  with assms show ?thesis by (simp add: current_value_def)
next
  case (Some p)
  show ?thesis
  proof (cases p)
    case (Data x1 x2 x3 x4)
    with Some assms show ?thesis by (simp add: current_value_def)
  next
    case (Accessor g st e cf)
    with Some assms show ?thesis
      by (cases g) (auto simp add: current_value_def prod_eq_iff)
  next
    case (Reactive c' d' prev' cust' sh')
    with Some assms have
      "call_get (dependArray n env) env a (Reactive c' d' prev' cust' sh') s = Ret (v, s')"
      by (simp add: current_value_def)
    with dependArray_only_depends show ?thesis by (rule call_get_only_depends)
  qed
qed

lemma strict_eq_same: "strict_eq v v \<or> (\<not> strict_eq v v \<and> \<not> strict_eq v v)"
  by simp

section \<open>An existing observer is returned\<close>

text \<open>
  C10: when the value is an object that carries an observer in its \<^verbatim>\<open>__ob__\<close> field,
  \<^verbatim>\<open>observe\<close> returns that observer and creates nothing, whatever \<^verbatim>\<open>shouldObserve\<close>,
  \<^verbatim>\<open>isServerRendering()\<close>, the shape of the object, its extensibility and \<^verbatim>\<open>_isVue\<close>
  are: none of them is a hypothesis. With \<^verbatim>\<open>asRootData\<close> the only change is the
  increment of \<^verbatim>\<open>vmCount\<close>. The object is not a \<^verbatim>\<open>VNode\<close>: those are never given an
  observer, and \<^verbatim>\<open>observe\<close> returns before it looks at them.
\<close>

theorem observe_marked:
  assumes "marker s a = Some ob" and "\<not> vnode (obj_at s a)"
  shows "observe (Suc n) env (Ref a) False s = Ret (Some ob, s) \<and>
         observe (Suc n) env (Ref a) True s =
           Ret (Some ob, s\<lparr>observers := (observers s)
                  (ob := (observers s ob)\<lparr>vmCount := Suc (vmCount (observers s ob))\<rparr>)\<rparr>)"
proof -
  from assms(1) obtain e c w where "own s a (Name ''__ob__'') = Some (Data (ObRef ob) e c w)"
    by (auto dest: marker_SomeD)
  with assms(2) show ?thesis
    by (simp add: hasOwn_def)
qed

text \<open>The root data of above, with observation switched off and in server rendering.\<close>

theorem observe_marked_witness:
  "marker (root_a1\<lparr>shouldObserve := False\<rparr>) 0 = Some 0 \<and>
   \<not> vnode (obj_at (root_a1\<lparr>shouldObserve := False\<rparr>) 0) \<and>
   serverRendering (dev_env\<lparr>serverRendering := True\<rparr>) \<and>
   \<not> shouldObserve (root_a1\<lparr>shouldObserve := False\<rparr>) \<and>
   observe (Suc 0) (dev_env\<lparr>serverRendering := True\<rparr>) (Ref 0) False
     (root_a1\<lparr>shouldObserve := False\<rparr>) = Ret (Some 0, root_a1\<lparr>shouldObserve := False\<rparr>)"
proof -
  have m: "marker (root_a1\<lparr>shouldObserve := False\<rparr>) 0 = Some 0"
    by code_simp
  have v: "\<not> vnode (obj_at (root_a1\<lparr>shouldObserve := False\<rparr>) 0)"
    by code_simp
  from observe_marked [OF m v, of 0 "dev_env\<lparr>serverRendering := True\<rparr>"] m v
  show ?thesis by simp
qed

section \<open>Observation terminates on plain data\<close>

lemma frame_refl [simp]: "frame A s s"
  by (simp add: frame_def)

lemma frame_trans: "frame A s t \<Longrightarrow> frame A t u \<Longrightarrow> frame A s u"
  unfolding frame_def
  apply (intro conjI allI impI)
                  apply (simp_all (no_asm_simp))
  done

lemma frame_mono: "frame A s t \<Longrightarrow> A \<subseteq> B \<Longrightarrow> frame B s t"
  unfolding frame_def by blast

lemma frame_unmarked:
  assumes "frame {} s t" and "frame {a} t u" and "marker s a = None"
  shows "frame {} s u"
proof -
  have "\<And>b. marker s b \<noteq> None \<Longrightarrow> obj_at u b = obj_at s b"
  proof -
    fix b assume b: "marker s b \<noteq> None"
    with assms(3) have "b \<noteq> a" by auto
    moreover from assms(1) b have "obj_at t b = obj_at s b" "marker t b = marker s b"
      by (simp_all add: frame_def)
    ultimately show "obj_at u b = obj_at s b"
      using assms(2) b by (simp add: frame_def)
  qed
  moreover from frame_trans [OF frame_mono [OF assms(1)] assms(2)] have "frame {a} s u"
    by simp
  ultimately show ?thesis
    unfolding frame_def by simp
qed

lemma obj_at_fields [simp]:
  "obj_at (s\<lparr>observers := x1\<rparr>) = obj_at s"
  "obj_at (s\<lparr>nobs := x2\<rparr>) = obj_at s"
  "obj_at (s\<lparr>deps := x3\<rparr>) = obj_at s"
  "obj_at (s\<lparr>uid := x4\<rparr>) = obj_at s"
  "obj_at (s\<lparr>cells := x5\<rparr>) = obj_at s"
  "obj_at (s\<lparr>ncells := x6\<rparr>) = obj_at s"
  "obj_at (s\<lparr>target := x7\<rparr>) = obj_at s"
  "obj_at (s\<lparr>targetStack := x8\<rparr>) = obj_at s"
  "obj_at (s\<lparr>shouldObserve := x9\<rparr>) = obj_at s"
  "obj_at (s\<lparr>trace := x10\<rparr>) = obj_at s"
  "obj_at (s\<lparr>world := x11\<rparr>) = obj_at s"
  by (simp_all add: obj_at_def fun_eq_iff)

lemma own_fields [simp]:
  "own (s\<lparr>observers := x1\<rparr>) = own s"
  "own (s\<lparr>nobs := x2\<rparr>) = own s"
  "own (s\<lparr>deps := x3\<rparr>) = own s"
  "own (s\<lparr>uid := x4\<rparr>) = own s"
  "own (s\<lparr>cells := x5\<rparr>) = own s"
  "own (s\<lparr>ncells := x6\<rparr>) = own s"
  "own (s\<lparr>target := x7\<rparr>) = own s"
  "own (s\<lparr>targetStack := x8\<rparr>) = own s"
  "own (s\<lparr>shouldObserve := x9\<rparr>) = own s"
  "own (s\<lparr>trace := x10\<rparr>) = own s"
  "own (s\<lparr>world := x11\<rparr>) = own s"
  by (simp_all add: own_def fun_eq_iff)

lemma marker_fields [simp]:
  "marker (s\<lparr>observers := x1\<rparr>) = marker s"
  "marker (s\<lparr>nobs := x2\<rparr>) = marker s"
  "marker (s\<lparr>deps := x3\<rparr>) = marker s"
  "marker (s\<lparr>uid := x4\<rparr>) = marker s"
  "marker (s\<lparr>cells := x5\<rparr>) = marker s"
  "marker (s\<lparr>ncells := x6\<rparr>) = marker s"
  "marker (s\<lparr>target := x7\<rparr>) = marker s"
  "marker (s\<lparr>targetStack := x8\<rparr>) = marker s"
  "marker (s\<lparr>shouldObserve := x9\<rparr>) = marker s"
  "marker (s\<lparr>trace := x10\<rparr>) = marker s"
  "marker (s\<lparr>world := x11\<rparr>) = marker s"
  by (simp_all add: marker_def fun_eq_iff)

lemma obj_at_put_obj:
  "obj_at (put_obj a ob s) b = (if b = a \<and> a < length (objs s) then ob else obj_at s b)"
  by (simp add: obj_at_def put_obj_def)

lemma objs_put_obj [simp]: "length (objs (put_obj a ob s)) = length (objs s)"
  by (simp add: put_obj_def)

lemma put_obj_fields [simp]:
  "trace (put_obj a ob s) = trace s" "target (put_obj a ob s) = target s"
  "targetStack (put_obj a ob s) = targetStack s" "shouldObserve (put_obj a ob s) = shouldObserve s"
  "world (put_obj a ob s) = world s" "uid (put_obj a ob s) = uid s" "deps (put_obj a ob s) = deps s"
  "nobs (put_obj a ob s) = nobs s" "observers (put_obj a ob s) = observers s"
  "ncells (put_obj a ob s) = ncells s" "cells (put_obj a ob s) = cells s"
  by (simp_all add: put_obj_def)

lemma obj_at_put_own:
  "obj_at (put_own a k p s) b =
     (if b = a \<and> a < length (objs s)
      then (obj_at s a)\<lparr>props := AList.update k p (props (obj_at s a))\<rparr> else obj_at s b)"
  by (simp add: put_own_def obj_at_put_obj)

lemma own_put_own:
  "own (put_own a k p s) b k' =
     (if b = a \<and> a < length (objs s) \<and> k' = k then Some p else own s b k')"
  by (simp add: own_def obj_at_put_own update_conv')

lemma put_own_fields [simp]:
  "length (objs (put_own a k p s)) = length (objs s)"
  "trace (put_own a k p s) = trace s" "target (put_own a k p s) = target s"
  "targetStack (put_own a k p s) = targetStack s"
  "shouldObserve (put_own a k p s) = shouldObserve s"
  "world (put_own a k p s) = world s" "uid (put_own a k p s) = uid s"
  "deps (put_own a k p s) = deps s"
  "nobs (put_own a k p s) = nobs s" "observers (put_own a k p s) = observers s"
  "ncells (put_own a k p s) = ncells s" "cells (put_own a k p s) = cells s"
  by (simp_all add: put_own_def)

lemma marker_own: "marker s a = (case own s a (Name ''__ob__'') of
        Some (Data (ObRef b) e c w) \<Rightarrow> Some b | _ \<Rightarrow> None)"
  by (simp add: marker_def ob_marker_def own_def)

lemma marker_put_own_other:
  "k \<noteq> Name ''__ob__'' \<Longrightarrow> marker (put_own a k p s) b = marker s b"
  by (simp add: marker_own own_put_own)

lemma marker_put_own_marker:
  "a < length (objs s) \<Longrightarrow>
   marker (put_own a (Name ''__ob__'') (Data (ObRef ob) e c w) s) b =
     (if b = a then Some ob else marker s b)"
  by (simp add: marker_own own_put_own)

lemma unmarked_card: "unmarked s = card {b. b < length (objs s) \<and> marker s b = None}"
  by (simp add: unmarked_def length_filter_conv_card marker_def obj_at_def cong: conj_cong)

lemma frame_unmarked_le:
  assumes "frame A s s'"
  shows "unmarked s' \<le> unmarked s"
proof -
  from assms have "{b. b < length (objs s') \<and> marker s' b = None} \<subseteq>
      {b. b < length (objs s) \<and> marker s b = None}"
    by (auto simp: frame_def)
  then show ?thesis
    by (simp add: unmarked_card card_mono)
qed

lemma mark_unmarked:
  assumes "a < length (objs s)" and "marker s a = None"
    and "length (objs s') = length (objs s)"
    and "\<And>b. marker s' b = (if b = a then Some ob else marker s b)"
  shows "unmarked s' < unmarked s"
proof -
  have "{b. b < length (objs s') \<and> marker s' b = None} \<subset>
      {b. b < length (objs s) \<and> marker s b = None}"
    using assms by auto
  then show ?thesis
    by (simp add: unmarked_card psubset_card_mono)
qed

lemma good_Ret:
  assumes "good env n obs" and "plain_heap s" and "unmarked s < n" and "\<not> is_observer v"
  shows "\<exists>r s'. obs v s = Ret (r, s') \<and> frame {} s s' \<and> plain_heap s' \<and>
           (\<forall>a. v = Ref a \<longrightarrow> \<not> vnode (obj_at s a) \<longrightarrow> r = marker s' a) \<and>
           (\<forall>a. v = Ref a \<longrightarrow> observable env s a \<longrightarrow> r \<noteq> None)"
  using assms unfolding good_def by (elim allE impE) assumption+

lemma same_objs:
  assumes "objs s' = objs s"
  shows "obj_at s' = obj_at s" "own s' = own s" "marker s' = marker s"
    "unmarked s' = unmarked s" "plain_heap s' = plain_heap s"
  using assms by (simp_all add: obj_at_def own_def marker_def unmarked_def plain_heap_def fun_eq_iff)

lemma dead_obj_data_only [simp]: "data_only dead_obj"
  by (simp add: data_only_def dead_obj_def)

lemma plain_heap_iff:
  "plain_heap s = (\<forall>b. marker s b \<noteq> None \<or> data_only (obj_at s b))"
proof
  assume p: "plain_heap s"
  show "\<forall>b. marker s b \<noteq> None \<or> data_only (obj_at s b)"
  proof
    fix b
    show "marker s b \<noteq> None \<or> data_only (obj_at s b)"
    proof (cases "b < length (objs s)")
      case True
      with p show ?thesis
        by (auto simp: plain_heap_def list_all_length marker_def obj_at_def)
    next
      case False
      then show ?thesis by (simp add: obj_at_def)
    qed
  qed
next
  assume a: "\<forall>b. marker s b \<noteq> None \<or> data_only (obj_at s b)"
  have "\<And>n. n < length (objs s) \<Longrightarrow> ob_marker (objs s ! n) \<noteq> None \<or> data_only (objs s ! n)"
  proof -
    fix n assume "n < length (objs s)"
    with a [rule_format, of n] show "ob_marker (objs s ! n) \<noteq> None \<or> data_only (objs s ! n)"
      by (simp add: marker_def obj_at_def)
  qed
  then show "plain_heap s"
    by (simp add: plain_heap_def list_all_length)
qed

lemma data_only_own:
  assumes "data_only (obj_at s a)" and "own s a k = Some p"
  shows "\<exists>v e c w. p = Data v e c w \<and> \<not> is_observer v"
proof -
  from assms(2) have "(k, p) \<in> set (props (obj_at s a))"
    by (auto simp: own_def dest: map_of_SomeD)
  with assms(1) have "plain_data p"
    by (auto simp: data_only_def list_all_iff)
  then show ?thesis
    by (cases p) simp_all
qed

lemma Dep_new_eq: "Dep_new s = (uid s, after_Dep s)"
  by (simp add: after_Dep_def Dep_new_def)

lemma after_Dep_objs [simp]: "objs (after_Dep s) = objs s"
  by (simp add: after_Dep_def Dep_new_def)

lemma after_Dep_same [simp]:
  "obj_at (after_Dep s) = obj_at s" "own (after_Dep s) = own s" "marker (after_Dep s) = marker s"
  "unmarked (after_Dep s) = unmarked s" "plain_heap (after_Dep s) = plain_heap s"
  by (rule same_objs [OF after_Dep_objs])+

lemma unmarked_fields [simp]:
  "unmarked (s\<lparr>observers := x1\<rparr>) = unmarked s"
  "unmarked (s\<lparr>nobs := x2\<rparr>) = unmarked s"
  "unmarked (s\<lparr>deps := x3\<rparr>) = unmarked s"
  "unmarked (s\<lparr>uid := x4\<rparr>) = unmarked s"
  "unmarked (s\<lparr>cells := x5\<rparr>) = unmarked s"
  "unmarked (s\<lparr>ncells := x6\<rparr>) = unmarked s"
  "unmarked (s\<lparr>target := x7\<rparr>) = unmarked s"
  "unmarked (s\<lparr>targetStack := x8\<rparr>) = unmarked s"
  "unmarked (s\<lparr>shouldObserve := x9\<rparr>) = unmarked s"
  "unmarked (s\<lparr>trace := x10\<rparr>) = unmarked s"
  "unmarked (s\<lparr>world := x11\<rparr>) = unmarked s"
  by (simp_all add: unmarked_def)

lemma plain_heap_fields [simp]:
  "plain_heap (s\<lparr>observers := x1\<rparr>) = plain_heap s"
  "plain_heap (s\<lparr>nobs := x2\<rparr>) = plain_heap s"
  "plain_heap (s\<lparr>deps := x3\<rparr>) = plain_heap s"
  "plain_heap (s\<lparr>uid := x4\<rparr>) = plain_heap s"
  "plain_heap (s\<lparr>cells := x5\<rparr>) = plain_heap s"
  "plain_heap (s\<lparr>ncells := x6\<rparr>) = plain_heap s"
  "plain_heap (s\<lparr>target := x7\<rparr>) = plain_heap s"
  "plain_heap (s\<lparr>targetStack := x8\<rparr>) = plain_heap s"
  "plain_heap (s\<lparr>shouldObserve := x9\<rparr>) = plain_heap s"
  "plain_heap (s\<lparr>trace := x10\<rparr>) = plain_heap s"
  "plain_heap (s\<lparr>world := x11\<rparr>) = plain_heap s"
  by (simp_all add: plain_heap_def)

lemma frame_after_Dep [simp]: "frame A s (after_Dep s)"
  by (simp add: frame_def after_Dep_def Dep_new_def obj_at_def marker_def)

lemma defineReactive_Data:
  assumes "own s a k = Some (Data v e c w)"
  shows "defineReactive obs da env a k None cust sh s =
     (if \<not> c then Ret (after_Dep s)
      else seq (if sh then Ret (None, after_Dep s) else obs v (after_Dep s))
             (\<lambda>(childOb, s3).
                defineProperty a k (uid s) (Some (Data v e c w)) cust sh v childOb s3))"
proof -
  have o: "own (after_Dep s) a k = Some (Data v e c w)"
    using assms by simp
  have d: "getOwnPropertyDescriptor (after_Dep s) a k = Some (Data v e c w)"
    using o by (rule descriptor_own)
  have g: "get_member da env a k (after_Dep s) = Ret (v, after_Dep s)"
    using o by (rule get_member_data)
  show ?thesis
    unfolding defineReactive_def Let_def Dep_new_eq prod.case d g
    by simp
qed

lemma defineProperty_existing:
  assumes "own s a k = Some p" and "configurable p"
  shows "defineProperty a k d property cust sh v childOb s =
     Ret (put_own a k (Reactive (ncells s) d property cust sh)
            (s\<lparr>cells := (cells s)(ncells s := \<lparr>c_val = v, c_childOb = childOb\<rparr>),
               ncells := Suc (ncells s)\<rparr>))"
  using assms by (simp add: defineProperty_def)

lemma frame_install:
  assumes "marker s a \<noteq> None" and "k \<noteq> Name ''__ob__''"
  shows "frame {a} s (put_own a k p (s\<lparr>cells := (cells s)(ncells s := x), ncells := Suc (ncells s)\<rparr>))"
  using assms
  by (simp add: frame_def obj_at_put_own marker_put_own_other)

lemma plain_heap_put_own_marked:
  assumes "plain_heap s" and "marker s a \<noteq> None" and "k \<noteq> Name ''__ob__''"
  shows "plain_heap (put_own a k p s)"
  using assms
  by (auto simp add: plain_heap_iff obj_at_put_own marker_put_own_other)

lemma frame_marker: "frame A s s' \<Longrightarrow> marker s b \<noteq> None \<Longrightarrow> marker s' b = marker s b"
  by (simp add: frame_def)


lemma frame_elems: "frame A s s' \<Longrightarrow> elems (obj_at s' b) = elems (obj_at s b)"
  by (simp add: frame_def)

lemma frame_length: "frame A s s' \<Longrightarrow> length (objs s') = length (objs s)"
  by (simp add: frame_def)

lemma defineReactive_good:
  assumes g: "good env n obs" and p: "plain_heap s" and u: "unmarked s < n"
    and m: "marker s a \<noteq> None" and o: "own s a k = Some (Data v e c w)"
    and v: "\<not> is_observer v"
  shows "\<exists>s'. defineReactive obs da env a k None None False s = Ret s' \<and> frame {a} s s' \<and>
     plain_heap s' \<and> (\<forall>k'. k' \<noteq> k \<longrightarrow> own s' a k' = own s a k')"
proof (cases c)
  case False
  with o have "defineReactive obs da env a k None None False s = Ret (after_Dep s)"
    by (simp add: defineReactive_Data)
  moreover have "plain_heap (after_Dep s)" "own (after_Dep s) = own s"
    using p by simp_all
  ultimately show ?thesis by simp
next
  case True
  let ?s1 = "after_Dep s"
  have k: "k \<noteq> Name ''__ob__''"
    using m o v by (cases v) (auto simp: marker_own)
  have s1: "plain_heap ?s1" "unmarked ?s1 < n" "marker ?s1 = marker s" "own ?s1 = own s"
    using p u by simp_all
  from good_Ret [OF g s1(1,2) v] obtain r s3 where
    r: "obs v ?s1 = Ret (r, s3)" and f3: "frame {} ?s1 s3" and p3: "plain_heap s3"
    by (elim exE conjE)
  from f3 m have a3: "obj_at s3 a = obj_at s a" and m3: "marker s3 a \<noteq> None"
    by (simp_all add: frame_def)
  then have o3: "own s3 a = own s a"
    by (simp add: own_def fun_eq_iff)
  let ?s3 = "s3\<lparr>cells := (cells s3)(ncells s3 := \<lparr>c_val = v, c_childOb = r\<rparr>),
               ncells := Suc (ncells s3)\<rparr>"
  let ?s' = "put_own a k (Reactive (ncells s3) (uid s) (Some (Data v e c w)) None False) ?s3"
  have "defineReactive obs da env a k None None False s = Ret ?s'"
    using o True r o3 by (simp add: defineReactive_Data defineProperty_existing)
  moreover have "frame {a} s ?s'"
  proof -
    have f13: "frame {a} ?s1 s3"
      by (rule frame_mono [OF f3]) simp
    have f3': "frame {a} s3 ?s'"
      using m3 k by (rule frame_install)
    show ?thesis
      by (rule frame_trans [OF frame_after_Dep frame_trans [OF f13 f3']])
  qed
  moreover have "plain_heap ?s3"
    using p3 by simp
  then have "plain_heap ?s'"
    using m3 k by (intro plain_heap_put_own_marked) simp_all
  moreover have "\<forall>k'. k' \<noteq> k \<longrightarrow> own ?s' a k' = own s a k'"
    using o3 by (simp add: own_put_own)
  ultimately show ?thesis by (intro exI conjI)
qed

lemma walk_keys_good:
  assumes g: "good env n obs"
  shows "plain_heap s \<Longrightarrow> unmarked s < n \<Longrightarrow> marker s a \<noteq> None \<Longrightarrow> distinct ks \<Longrightarrow>
         (\<forall>k \<in> set ks. \<exists>v e c w. own s a k = Some (Data v e c w) \<and> \<not> is_observer v) \<Longrightarrow>
         \<exists>s'. walk_keys obs da env a ks s = Ret s' \<and> frame {a} s s' \<and> plain_heap s'"
proof (induction ks arbitrary: s)
  case Nil
  then show ?case by simp
next
  case (Cons k ks)
  from Cons.prems(5) obtain v e c w where o: "own s a k = Some (Data v e c w)"
    and v: "\<not> is_observer v"
    by auto
  from defineReactive_good [OF g Cons.prems(1,2,3) o v, of da] obtain s1 where
    d: "defineReactive obs da env a k None None False s = Ret s1" and f1: "frame {a} s s1"
    and p1: "plain_heap s1" and o1: "\<forall>k'. k' \<noteq> k \<longrightarrow> own s1 a k' = own s a k'"
    by (elim exE conjE)
  have u1: "unmarked s1 < n"
    using frame_unmarked_le [OF f1] Cons.prems(2) by simp
  have m1: "marker s1 a \<noteq> None"
    using frame_marker [OF f1] Cons.prems(3) by simp
  have "\<forall>k' \<in> set ks. \<exists>v e c w. own s1 a k' = Some (Data v e c w) \<and> \<not> is_observer v"
    using Cons.prems(4,5) o1 by auto
  with Cons.IH [OF p1 u1 m1] Cons.prems(4) obtain s' where
    "walk_keys obs da env a ks s1 = Ret s'" "frame {a} s1 s'" "plain_heap s'"
    by (elim meta_impE exE conjE) simp_all
  then have "walk_keys obs da env a (k # ks) s = Ret s'" "frame {a} s s'" "plain_heap s'"
    using d frame_trans [OF f1] by simp_all
  then show ?case
    by (intro exI conjI)
qed

lemma observeArray_loop_good:
  assumes g: "good env n obs"
    and it: "\<And>i t. frame {} s0 t \<Longrightarrow> \<not> is_observer (item i t)"
  shows "frame {} s0 s \<Longrightarrow> plain_heap s \<Longrightarrow> unmarked s < n \<Longrightarrow>
         \<exists>s'. observeArray_loop obs item i k s = Ret s' \<and> frame {} s s' \<and> plain_heap s'"
proof (induction k arbitrary: i s)
  case 0
  then show ?case by simp
next
  case (Suc k)
  from good_Ret [OF g Suc.prems(2,3) it [OF Suc.prems(1)], of i] obtain r s1 where
    r: "obs (item i s) s = Ret (r, s1)" and f1: "frame {} s s1" and p1: "plain_heap s1"
    by (elim exE conjE)
  have u1: "unmarked s1 < n"
    using frame_unmarked_le [OF f1] Suc.prems(3) by simp
  from Suc.prems(1) f1 have "frame {} s0 s1" by (rule frame_trans)
  from Suc.IH [OF this p1 u1, of "Suc i"] obtain s' where
    "observeArray_loop obs item (Suc i) k s1 = Ret s'" "frame {} s1 s'" "plain_heap s'"
    by (elim exE conjE)
  then have "observeArray_loop obs item i (Suc k) s = Ret s'" "frame {} s s'" "plain_heap s'"
    using r frame_trans [OF f1] by simp_all
  then show ?case
    by (intro exI conjI)
qed

lemma after_Dep_fields [simp]:
  "nobs (after_Dep s) = nobs s" "observers (after_Dep s) = observers s"
  "ncells (after_Dep s) = ncells s" "cells (after_Dep s) = cells s"
  "trace (after_Dep s) = trace s" "target (after_Dep s) = target s"
  "targetStack (after_Dep s) = targetStack s" "shouldObserve (after_Dep s) = shouldObserve s"
  "world (after_Dep s) = world s" "uid (after_Dep s) = Suc (uid s)"
  by (simp_all add: after_Dep_def Dep_new_def)

lemma deps_after_Dep [simp]:
  "deps (after_Dep s) d = (if d = uid s then \<lparr>dep_id = uid s, subs = []\<rparr> else deps s d)"
  by (simp add: after_Dep_def Dep_new_def)

lemma Observer_new_eq:
  "Observer_new obs da env a s =
     seq (if arr (obj_at (attached a s) a)
          then observeArray obs a
                 (if hasProto env then protoAugment a (attached a s) else copyAugment a (attached a s))
          else walk obs da env a (attached a s))
       (\<lambda>s4. Ret (nobs s, s4))"
  unfolding Observer_new_def Let_def Dep_new_eq prod.case attached_def
  by simp

lemma obj_at_attached:
  "obj_at (attached a s) b =
     (if b = a \<and> a < length (objs s)
      then (obj_at s a)\<lparr>props := AList.update (Name ''__ob__'')
             (Data (ObRef (nobs s)) False True True) (props (obj_at s a))\<rparr>
      else obj_at s b)"
  by (simp add: attached_def def_prop_def obj_at_put_own)

lemma marker_attached:
  "a < length (objs s) \<Longrightarrow> marker (attached a s) b = (if b = a then Some (nobs s) else marker s b)"
  by (simp add: attached_def def_prop_def marker_put_own_marker)

lemma length_attached [simp]: "length (objs (attached a s)) = length (objs s)"
  by (simp add: attached_def def_prop_def)

lemma frame_attached:
  assumes "marker s a = None"
  shows "frame {} s (attached a s)"
proof (cases "a < length (objs s)")
  case True
  have "\<And>b. marker s b \<noteq> None \<Longrightarrow> b \<noteq> a"
    using assms by auto
  then show ?thesis
    using True
    by (simp add: frame_def obj_at_attached marker_attached)
       (simp add: attached_def def_prop_def)
next
  case False
  then have "obj_at (attached a s) = obj_at s"
    by (simp add: fun_eq_iff obj_at_attached)
  then show ?thesis
    by (simp add: frame_def marker_def) (simp add: attached_def def_prop_def)
qed

lemma unmarked_attached:
  assumes "a < length (objs s)" and "marker s a = None"
  shows "unmarked (attached a s) < unmarked s"
  using assms by (intro mark_unmarked [of a s _ "nobs s"]) (simp_all add: marker_attached)

lemma plain_heap_attached:
  assumes "plain_heap s" and "a < length (objs s)"
  shows "plain_heap (attached a s)"
  unfolding plain_heap_iff
proof
  fix b
  show "marker (attached a s) b \<noteq> None \<or> data_only (obj_at (attached a s) b)"
    using assms(1) [unfolded plain_heap_iff, rule_format, of b] assms(2)
    by (cases "b = a") (simp_all add: marker_attached obj_at_attached)
qed

lemma meth_name_not_ob [simp]: "meth_name m \<noteq> ''__ob__''"
  by (cases m) simp_all

lemma frame_def_prop:
  assumes "marker s a \<noteq> None" and "k \<noteq> Name ''__ob__''"
  shows "frame {a} s (def_prop a k v s)"
  using assms by (simp add: frame_def def_prop_def obj_at_put_own marker_put_own_other)

lemma plain_heap_def_prop:
  assumes "plain_heap s" and "marker s a \<noteq> None" and "k \<noteq> Name ''__ob__''"
  shows "plain_heap (def_prop a k v s)"
  unfolding def_prop_def using assms by (rule plain_heap_put_own_marked)

lemma fold_def_prop:
  "marker s a \<noteq> None \<Longrightarrow> plain_heap s \<Longrightarrow>
   frame {a} s (fold (\<lambda>m. def_prop a (Name (meth_name m)) (Method m)) ms s) \<and>
   plain_heap (fold (\<lambda>m. def_prop a (Name (meth_name m)) (Method m)) ms s)"
proof (induction ms arbitrary: s)
  case Nil
  then show ?case by simp
next
  case (Cons m ms)
  let ?t = "def_prop a (Name (meth_name m)) (Method m) s"
  have f: "frame {a} s ?t"
    using Cons.prems(1) by (rule frame_def_prop) simp
  have p: "plain_heap ?t"
    using Cons.prems(2,1) by (rule plain_heap_def_prop) simp
  have m: "marker ?t a \<noteq> None"
    using frame_marker [OF f] Cons.prems(1) by simp
  from Cons.IH [OF m p] frame_trans [OF f] show ?case
    by simp
qed

lemma copyAugment_good:
  assumes "marker s a \<noteq> None" and "plain_heap s"
  shows "frame {a} s (copyAugment a s)" "plain_heap (copyAugment a s)"
  using fold_def_prop [OF assms] by (simp_all add: copyAugment_def)

lemma protoAugment_good:
  assumes "marker s a \<noteq> None" and "plain_heap s"
  shows "frame {a} s (protoAugment a s)" "plain_heap (protoAugment a s)"
proof -
  have m: "marker (protoAugment a s) = marker s"
    by (simp add: fun_eq_iff marker_def ob_marker_def protoAugment_def obj_at_put_obj)
  show "frame {a} s (protoAugment a s)"
    by (simp add: frame_def m) (simp add: protoAugment_def obj_at_put_obj)
  show "plain_heap (protoAugment a s)"
    unfolding plain_heap_iff
  proof
    fix b
    have o: "b \<noteq> a \<Longrightarrow> obj_at (protoAugment a s) b = obj_at s b"
      by (simp add: protoAugment_def obj_at_put_obj)
    show "marker (protoAugment a s) b \<noteq> None \<or> data_only (obj_at (protoAugment a s) b)"
      using assms(2) [unfolded plain_heap_iff, rule_format, of b] assms(1)
      by (cases "b = a") (simp_all add: m o)
  qed
qed

lemma set_idxs: "set (idxs ks) = {i. Idx i \<in> set ks}"
  by (induction ks) (auto simp: idxs_def split: pkey.splits)

lemma distinct_idxs: "distinct ks \<Longrightarrow> distinct (idxs ks)"
proof (induction ks)
  case Nil
  then show ?case by (simp add: idxs_def)
next
  case (Cons k ks)
  then have "distinct (idxs ks)" by simp
  moreover have "idxs (k # ks) = (case k of Idx i \<Rightarrow> [i] | Name n \<Rightarrow> []) @ idxs ks"
    by (simp add: idxs_def)
  ultimately show ?case
    using Cons.prems by (cases k) (simp_all add: set_idxs)
qed

lemma Object_keys_eq:
  "Object_keys ob =
     map Idx (sort (idxs (map fst (filter (\<lambda>kp. enumerable (snd kp)) (props ob))))) @
     filter (\<lambda>k. case k of Idx i \<Rightarrow> False | Name n \<Rightarrow> True)
       (map fst (filter (\<lambda>kp. enumerable (snd kp)) (props ob)))"
  by (simp add: Object_keys_def idxs_def Let_def)

lemma set_keys_order:
  "set (map Idx (sort (idxs ks)) @
        filter (\<lambda>k. case k of Idx i \<Rightarrow> False | Name n \<Rightarrow> True) ks) = set ks"
proof (rule set_eqI)
  fix k
  show "k \<in> set (map Idx (sort (idxs ks)) @
        filter (\<lambda>k. case k of Idx i \<Rightarrow> False | Name n \<Rightarrow> True) ks) \<longleftrightarrow> k \<in> set ks"
    by (cases k) (auto simp: set_idxs)
qed

lemma set_Object_keys:
  "set (Object_keys ob) = fst ` {kp \<in> set (props ob). enumerable (snd kp)}"
  unfolding Object_keys_eq set_keys_order by auto

lemma distinct_Object_keys:
  assumes "distinct (map fst (props ob))"
  shows "distinct (Object_keys ob)"
proof -
  let ?ks = "map fst (filter (\<lambda>kp. enumerable (snd kp)) (props ob))"
  have d: "distinct ?ks"
    using assms by (rule distinct_map_filter)
  have 1: "distinct (map Idx (sort (idxs ?ks)))"
    using distinct_idxs [OF d] by (simp add: distinct_map inj_on_def)
  have 2: "distinct (filter (\<lambda>k. case k of Idx i \<Rightarrow> False | Name n \<Rightarrow> True) ?ks)"
    using d by (rule distinct_filter)
  have 3: "set (map Idx (sort (idxs ?ks))) \<inter>
       set (filter (\<lambda>k. case k of Idx i \<Rightarrow> False | Name n \<Rightarrow> True) ?ks) = {}"
    by (auto split: pkey.splits)
  from 1 2 3 show ?thesis
    unfolding Object_keys_eq by (simp only: distinct_append)
qed

lemma walk_attached_keys:
  assumes d: "data_only (obj_at s a)" and l: "a < length (objs s)"
    and k: "k \<in> set (Object_keys (obj_at (attached a s) a))"
  shows "\<exists>v e c w. own (attached a s) a k = Some (Data v e c w) \<and> \<not> is_observer v"
proof -
  let ?m = "Data (ObRef (nobs s)) False True True"
  let ?ps = "props (obj_at s a)"
  let ?ps' = "AList.update (Name ''__ob__'') ?m ?ps"
  have ps': "props (obj_at (attached a s) a) = ?ps'"
    using l by (simp add: obj_at_attached)
  from k obtain p where kp: "(k, p) \<in> set ?ps'" and e: "enumerable p"
    by (auto simp: set_Object_keys ps')
  have "distinct (map fst ?ps')"
    using d by (simp add: data_only_def distinct_update)
  with kp have m: "map_of ?ps' k = Some p"
    by (simp add: map_of_is_SomeI)
  have ne: "k \<noteq> Name ''__ob__''"
  proof
    assume "k = Name ''__ob__''"
    with m have "p = ?m" by (simp add: update_conv')
    with e show False by simp
  qed
  with m have o: "own s a k = Some p"
    by (simp add: update_conv' own_def)
  from data_only_own [OF d o] obtain v e' c w where p: "p = Data v e' c w" "\<not> is_observer v"
    by (elim exE conjE)
  from m ps' have "own (attached a s) a k = Some p"
    by (simp add: own_def)
  with p show ?thesis by simp
qed

lemma Observer_new_good:
  assumes g: "good env n obs" and p: "plain_heap s" and u: "unmarked s < Suc n"
    and m: "marker s a = None" and l: "a < length (objs s)"
  shows "\<exists>s'. Observer_new obs da env a s = Ret (nobs s, s') \<and> frame {} s s' \<and> plain_heap s' \<and>
     marker s' a = Some (nobs s)"
proof -
  let ?t = "attached a s"
  have d: "data_only (obj_at s a)"
    using p [unfolded plain_heap_iff, rule_format, of a] m by simp
  have ft: "frame {} s ?t" using m by (rule frame_attached)
  have pt: "plain_heap ?t" using p l by (rule plain_heap_attached)
  have mt: "marker ?t a = Some (nobs s)" using l by (simp add: marker_attached)
  have ut: "unmarked ?t < n"
    using unmarked_attached [OF l m] u by simp
  have at: "arr (obj_at ?t a) = arr (obj_at s a)"
    by (simp add: obj_at_attached)
  have "\<exists>s'. (if arr (obj_at ?t a)
          then observeArray obs a
                 (if hasProto env then protoAugment a ?t else copyAugment a ?t)
          else walk obs da env a ?t) = Ret s' \<and> frame {a} ?t s' \<and> plain_heap s'"
  proof (cases "arr (obj_at ?t a)")
    case False
    have "\<forall>k \<in> set (Object_keys (obj_at ?t a)).
        \<exists>v e c w. own ?t a k = Some (Data v e c w) \<and> \<not> is_observer v"
      using walk_attached_keys [OF d l] by blast
    moreover have "distinct (Object_keys (obj_at ?t a))"
      using d l by (intro distinct_Object_keys)
        (simp add: obj_at_attached data_only_def distinct_update)
    moreover have "marker ?t a \<noteq> None" using mt by simp
    ultimately show ?thesis
      using walk_keys_good [OF g pt ut, of a "Object_keys (obj_at ?t a)" da] False
      by (simp add: walk_def)
  next
    case True
    let ?t' = "if hasProto env then protoAugment a ?t else copyAugment a ?t"
    have mt': "marker ?t a \<noteq> None" using mt by simp
    have ft': "frame {a} ?t ?t'" and pt': "plain_heap ?t'"
      using protoAugment_good [OF mt' pt] copyAugment_good [OF mt' pt] by simp_all
    have ut': "unmarked ?t' < n"
      using frame_unmarked_le [OF ft'] ut by simp
    have it: "\<And>i u. frame {} ?t' u \<Longrightarrow> \<not> is_observer (elem_at u a i)"
    proof -
      fix i u assume "frame {} ?t' u"
      then have "elems (obj_at u a) = elems (obj_at s a)"
        using frame_elems [OF ft', of a] frame_elems [OF ft, of a] by (simp add: frame_elems)
      with d show "\<not> is_observer (elem_at u a i)"
        by (simp add: elem_at_def data_only_def list_all_length)
    qed
    have "\<exists>s'. observeArray_loop obs (\<lambda>i u. elem_at u a i) 0
        (length (elems (obj_at ?t' a))) ?t' = Ret s' \<and> frame {} ?t' s' \<and> plain_heap s'"
      by (rule observeArray_loop_good [OF g _ frame_refl pt' ut']) (rule it)
    then obtain s' where "observeArray obs a ?t' = Ret s'" "frame {} ?t' s'" "plain_heap s'"
      unfolding observeArray_def by (elim exE conjE)
    moreover from this(2) have "frame {a} ?t' s'"
      by (rule frame_mono) simp
    with ft' have "frame {a} ?t s'" by (rule frame_trans)
    ultimately show ?thesis
      using True by simp
  qed
  then obtain s' where r: "(if arr (obj_at ?t a)
          then observeArray obs a
                 (if hasProto env then protoAugment a ?t else copyAugment a ?t)
          else walk obs da env a ?t) = Ret s'" and f: "frame {a} ?t s'" and ps: "plain_heap s'"
    by (elim exE conjE)
  have "Observer_new obs da env a s = Ret (nobs s, s')"
    unfolding Observer_new_eq r by simp
  moreover have "frame {} s s'"
    using ft f m by (rule frame_unmarked)
  moreover have "marker s' a = Some (nobs s)"
    using frame_marker [OF f, of a] mt by simp
  ultimately show ?thesis
    using ps by (intro exI conjI)
qed

lemma data_only_quiet: "data_only (obj_at s a) \<Longrightarrow> quiet s a n"
proof (cases "own s a (Name n)")
  case None
  then show ?thesis by (simp add: quiet_def)
next
  case (Some p)
  assume "data_only (obj_at s a)"
  from data_only_own [OF this Some] obtain v e c w where "p = Data v e c w"
    by (elim exE conjE)
  with Some show ?thesis by (simp add: quiet_def)
qed

lemma case_not_observer:
  "\<not> is_observer m \<Longrightarrow>
   (case m of Undefined \<Rightarrow> x | Null \<Rightarrow> x | Bool b \<Rightarrow> x | Num i \<Rightarrow> x | NaN \<Rightarrow> x | Str t \<Rightarrow> x
    | Ref b \<Rightarrow> x | ObRef ob \<Rightarrow> f ob | Fn g \<Rightarrow> x | Method h \<Rightarrow> x | Native k \<Rightarrow> x) = x"
  by (cases m) simp_all

lemma observe_unmarked:
  assumes v: "\<not> vnode (obj_at s a)" and m: "marker s a = None" and d: "data_only (obj_at s a)"
  shows "observe (Suc n) env (Ref a) False s =
     (if observable env s a
      then seq (Observer_new (\<lambda>x. observe n env x False) (dependArray n env) env a s)
             (\<lambda>(ob, s3). Ret (Some ob, s3))
      else Ret (None, s))"
proof -
  have "\<exists>x. (if hasOwn s a (Name ''__ob__'')
         then get_member (dependArray n env) env a (Name ''__ob__'') s
         else Ret (Undefined, s)) = Ret (x, s) \<and> \<not> is_observer x"
  proof (cases "own s a (Name ''__ob__'')")
    case None
    then show ?thesis
      by (simp add: hasOwn_def getOwnPropertyDescriptor_def)
  next
    case (Some p)
    from data_only_own [OF d Some] obtain x e c w where p: "p = Data x e c w" "\<not> is_observer x"
      by (elim exE conjE)
    with Some show ?thesis
      by (simp add: hasOwn_def)
  qed
  then obtain x where r: "(if hasOwn s a (Name ''__ob__'')
         then get_member (dependArray n env) env a (Name ''__ob__'') s
         else Ret (Undefined, s)) = Ret (x, s)" and x: "\<not> is_observer x"
    by (elim exE conjE)
  have g: "get_member (dependArray n env) env a (Name ''_isVue'') s =
      Ret (peek env s a ''_isVue'', s)"
    using data_only_quiet [OF d] by (rule get_member_quiet) simp
  show ?thesis
    unfolding observe.simps val.case r seq_Ret prod.case case_not_observer [OF x]
    using v
    by (cases "Observer_new (\<lambda>x. observe n env x False) (dependArray n env) env a s")
       (auto simp add: g observable_def)
qed

declare observe.simps [simp del]

lemma observe_other:
  "\<not> is_observer v \<Longrightarrow> \<forall>a. v \<noteq> Ref a \<Longrightarrow> observe (Suc n) env v r s = Ret (None, s)"
  by (cases v) (simp_all add: observe.simps)

lemma observe_vnode:
  "vnode (obj_at s a) \<Longrightarrow> observe (Suc n) env (Ref a) r s = Ret (None, s)"
  by (simp add: observe.simps)

lemma extensible_in_heap: "extensible (obj_at s a) \<Longrightarrow> a < length (objs s)"
  by (cases "a < length (objs s)") (simp_all add: obj_at_def dead_obj_def)

lemma observe_good: "good env n (\<lambda>x. observe n env x False)"
proof (induction n)
  case 0
  show ?case by (simp add: good_def)
next
  case (Suc n)
  show ?case
    unfolding good_def
  proof (intro allI impI)
    fix v and s :: "'a state"
    assume p: "plain_heap s" and u: "unmarked s < Suc n" and nv: "\<not> is_observer v"
    let ?goal = "\<exists>r s'. observe (Suc n) env v False s = Ret (r, s') \<and> frame {} s s' \<and>
        plain_heap s' \<and> (\<forall>a. v = Ref a \<longrightarrow> \<not> vnode (obj_at s a) \<longrightarrow> r = marker s' a) \<and>
        (\<forall>a. v = Ref a \<longrightarrow> observable env s a \<longrightarrow> r \<noteq> None)"
    have same: "\<And>r. observe (Suc n) env v False s = Ret (r, s) \<Longrightarrow>
        (\<forall>a. v = Ref a \<longrightarrow> \<not> vnode (obj_at s a) \<longrightarrow> r = marker s a) \<Longrightarrow>
        (\<forall>a. v = Ref a \<longrightarrow> observable env s a \<longrightarrow> r \<noteq> None) \<Longrightarrow> ?goal"
    proof -
      fix r
      assume "observe (Suc n) env v False s = Ret (r, s)"
        and "\<forall>a. v = Ref a \<longrightarrow> \<not> vnode (obj_at s a) \<longrightarrow> r = marker s a"
        and "\<forall>a. v = Ref a \<longrightarrow> observable env s a \<longrightarrow> r \<noteq> None"
      with p frame_refl [of "{}" s] show ?goal
        by (intro exI [of _ r] exI [of _ s] conjI)
    qed
    show ?goal
    proof (cases "\<exists>a. v = Ref a")
      case False
      with nv have "observe (Suc n) env v False s = Ret (None, s)"
        by (intro observe_other) simp_all
      then show ?thesis
        by (rule same) (use False in simp_all)
    next
      case True
      then obtain a where a: "v = Ref a" by blast
      show ?thesis
      proof (cases "vnode (obj_at s a)")
        case True
        then have "observe (Suc n) env v False s = Ret (None, s)"
          by (simp add: a observe_vnode)
        then show ?thesis
          by (rule same) (use True in \<open>simp_all add: a observable_def\<close>)
      next
        case nvn: False
        show ?thesis
        proof (cases "marker s a")
          case (Some ob)
          with nvn have "observe (Suc n) env v False s = Ret (Some ob, s)"
            by (simp add: a observe_marked)
          then show ?thesis
            by (rule same) (use Some in \<open>simp_all add: a\<close>)
        next
          case None
          have d: "data_only (obj_at s a)"
            using p [unfolded plain_heap_iff, rule_format, of a] None by simp
          note eq = observe_unmarked [OF nvn None d, of n env]
          show ?thesis
          proof (cases "observable env s a")
            case False
            with eq have "observe (Suc n) env v False s = Ret (None, s)"
              by (simp add: a)
            then show ?thesis
              by (rule same) (use None False in \<open>simp_all add: a\<close>)
          next
            case True
            then have l: "a < length (objs s)"
              by (simp add: observable_def extensible_in_heap)
            from Observer_new_good [OF Suc.IH p u None l, of "dependArray n env"]
            obtain s' where o: "Observer_new (\<lambda>x. observe n env x False) (dependArray n env)
                  env a s = Ret (nobs s, s')"
              and f: "frame {} s s'" and ps: "plain_heap s'" and ms: "marker s' a = Some (nobs s)"
              by (elim exE conjE)
            have "observe (Suc n) env v False s = Ret (Some (nobs s), s')"
              using eq True o by (simp add: a)
            with f ps ms show ?thesis
              by (intro exI [of _ "Some (nobs s)"] exI [of _ s'] conjI) (simp_all add: a)
          qed
        qed
      qed
    qed
  qed
qed

section \<open>\<^verbatim>\<open>set\<close> on a root-tracked target\<close>

text \<open>
  C1, as stated: after \<^verbatim>\<open>const data = { a: 1 }; observe(data, true)\<close> the call
  \<^verbatim>\<open>set(data, 'b', 7)\<close> in a development build warns once and returns \<open>7\<close>, but
  \<^verbatim>\<open>data\<close> has no property \<^verbatim>\<open>b\<close> afterwards: line 275 returns before any assignment.
\<close>

theorem set_root_no_assignment:
  "root_tracked dev_env root_a1 0 \<and> \<not> has_property dev_env root_a1 0 (Name ''b'') \<and>
   (case set_prop (\<lambda>x. observe 2 dev_env x False) (dependArray 2 dev_env) dev_env
           (Ref 0) (Name ''b'') (Num 7) root_a1 of
      Ret (r, s') \<Rightarrow>
        r = Num 7 \<and> warnings_of (added root_a1 s') = [root_warning] \<and>
        \<not> has_property dev_env s' 0 (Name ''b'')
    | _ \<Rightarrow> False)"
  by code_simp

text \<open>
  C1, amended: for a root-tracked object and a key that is not yet a property of it (and
  that is not an index into a list target), \<^verbatim>\<open>set\<close> returns the value and assigns
  nothing: the state is the one before, except that a build which is not a production
  build has logged exactly one warning. A production build logs none.
\<close>

theorem set_root_tracked:
  assumes "\<not> (arr (obj_at s a) \<and> isValidArrayIndex key)"
    and "\<not> has_property env s a key"
    and "root_tracked env s a"
  shows "set_prop obs da env (Ref a) key v s =
           Ret (v, if production env then s else warn root_warning s) \<and>
         own (if production env then s else warn root_warning s) a key = None \<and>
         warnings_of (added s (if production env then s else warn root_warning s)) =
           (if production env then [] else [root_warning])"
proof -
  from assms(3) have q: "quiet s a ''__ob__''" "quiet s a ''_isVue''"
    and r: "truthy (peek env s a ''_isVue'') \<or>
       (case peek env s a ''__ob__'' of ObRef b \<Rightarrow> vmCount (observers s b) \<noteq> 0 | _ \<Rightarrow> False)"
    by (simp_all add: root_tracked_def)
  have g1: "get_member da env a (Name ''__ob__'') s = Ret (peek env s a ''__ob__'', s)"
    using q(1) by (rule get_member_quiet) simp
  have g2: "get_member da env a (Name ''_isVue'') s = Ret (peek env s a ''_isVue'', s)"
    using q(2) by (rule get_member_quiet) simp
  have n: "own s a key = None"
    using assms(2) by (auto simp: has_property_def hasOwn_def getOwnPropertyDescriptor_def
        split: option.splits)
  have 1: "set_prop obs da env (Ref a) key v s =
           Ret (v, if production env then s else warn root_warning s)"
  proof -
    have c1: "(arr (obj_at s a) \<and> isValidArrayIndex key) = False"
      using assms(1) by simp
    have c2: "(has_property env s a key \<and> \<not> in_proto env ObjectProto key) = False"
      using assms(2) by simp
    have c3: "(truthy (peek env s a ''_isVue'') \<or>
       (case peek env s a ''__ob__'' of ObRef b \<Rightarrow> vmCount (observers s b) \<noteq> 0
        | _ \<Rightarrow> False)) = True"
      using r by simp
    show ?thesis
      by (simp only: set_prop_Ref c1 c2 c3 g1 g2 seq_Ret if_False if_True prod.case) simp
  qed
  have 2: "own (warn root_warning s) a key = own s a key"
    by (simp add: warn_def emit_def own_def obj_at_def)
  have 3: "added s (warn root_warning s) = [Warn root_warning]" "added s s = []"
    by (simp_all add: warn_def added_def)
  from 1 2 3 n show ?thesis by simp
qed

theorem set_root_tracked_witness:
  "\<not> (arr (obj_at root_a1 0) \<and> isValidArrayIndex (Name ''b'')) \<and>
   \<not> has_property dev_env root_a1 0 (Name ''b'') \<and> root_tracked dev_env root_a1 0 \<and>
   \<not> production dev_env \<and>
   set_prop (\<lambda>x. observe 2 dev_env x False) (dependArray 2 dev_env) dev_env
     (Ref 0) (Name ''b'') (Num 7) root_a1 = Ret (Num 7, warn root_warning root_a1)"
proof -
  have h1: "\<not> (arr (obj_at root_a1 0) \<and> isValidArrayIndex (Name ''b''))"
    by simp
  have h2: "\<not> has_property dev_env root_a1 0 (Name ''b'')"
    by code_simp
  have h3: "root_tracked dev_env root_a1 0"
    by code_simp
  have p: "\<not> production dev_env"
    by (simp add: dev_env_def)
  from set_root_tracked [OF h1 h2 h3, of "\<lambda>x. observe 2 dev_env x False"
      "dependArray 2 dev_env" "Num 7"] h1 h2 h3 p
  show ?thesis by simp
qed

section \<open>Writing the current value\<close>

text \<open>
  C3: let the property \<open>k\<close> of the object \<open>a\<close> be one that \<^verbatim>\<open>defineReactive\<close>
  installed, and let \<open>v\<close> be its current value: what \<^verbatim>\<open>getter ? getter.call(obj) : val\<close>
  gives, leaving the state \<open>s1\<close>. Writing \<open>v\<close> itself, or \<open>NaN\<close> when \<open>v\<close> is \<open>NaN\<close>,
  does nothing more than this read: the state after the write is \<open>s1\<close>, no call of
  \<^verbatim>\<open>notify\<close> was added, and without a getter of the user the state is the one before
  the write, so that the stored value is unchanged.
\<close>

theorem reactive_write_same:
  assumes "own s a k = Some (Reactive c d prev cust sh)"
    and "current_value (dependArray n env) env a c prev s = Ret (v, s1)"
    and "newVal = v \<or> (newVal = NaN \<and> v = NaN)"
  shows "put_member obs (dependArray n env) env a k newVal s = Ret s1 \<and>
         notifications_of (added s s1) = [] \<and> (\<not> has_getter prev \<longrightarrow> s1 = s)"
proof -
  from assms(3) have "strict_eq newVal v \<or> (\<not> strict_eq newVal newVal \<and> \<not> strict_eq v v)"
    by (auto simp: strict_eq_def)
  with assms(1,2) have "put_member obs (dependArray n env) env a k newVal s = Ret s1"
    by (simp add: put_member_def)
  moreover from assms(2) have "only_depends s s1"
    by (rule current_value_only_depends)
  then have "notifications_of (added s s1) = []"
    by (simp add: only_depends_added)
  moreover have "\<not> has_getter prev \<longrightarrow> s1 = s"
    using assms(2) by (cases prev rule: has_getter.cases) (auto simp: current_value_def)
  ultimately show ?thesis by simp
qed


theorem reactive_write_same_witness:
  "own reactive_nan 0 (Name ''a'') =
     Some (Reactive 0 1 (Some (Data NaN True True True)) None False) \<and>
   current_value (dependArray 1 dev_env) dev_env 0 0 (Some (Data NaN True True True))
     reactive_nan = Ret (NaN, reactive_nan) \<and>
   put_member (\<lambda>x. observe 1 dev_env x False) (dependArray 1 dev_env) dev_env 0 (Name ''a'') NaN
     reactive_nan = Ret reactive_nan"
proof -
  have h1: "own reactive_nan 0 (Name ''a'') =
     Some (Reactive 0 1 (Some (Data NaN True True True)) None False)"
    by code_simp
  have "c_val (cells reactive_nan 0) = NaN"
    by code_simp
  then have h2: "current_value (dependArray 1 dev_env) dev_env 0 0
     (Some (Data NaN True True True)) reactive_nan = Ret (NaN, reactive_nan)"
    by (simp add: current_value_def)
  from reactive_write_same [OF h1 h2, of NaN "\<lambda>x. observe 1 dev_env x False"] h1 h2
  show ?thesis by simp
qed

section \<open>Observing twice\<close>

lemma final_Ret [simp]: "final (Ret (r, s')) s = s'"
  by (simp add: final_def)

lemma Ret_final:
  "(case m of Ret (r, s') \<Rightarrow> r = x | _ \<Rightarrow> False) \<Longrightarrow> m = Ret (x, final m s)"
  by (cases m) auto





section \<open>\<^verbatim>\<open>set\<close> on a key the target already has\<close>


declare call_set.simps(3) [simp del]









section \<open>The intercepted list operations\<close>

lemma relisted_fields [simp]:
  "trace (relisted a ys ex s) = trace s"
  "observers (relisted a ys ex s) = observers s"
  "nobs (relisted a ys ex s) = nobs s"
  "deps (relisted a ys ex s) = deps s"
  "uid (relisted a ys ex s) = uid s"
  "cells (relisted a ys ex s) = cells s"
  "ncells (relisted a ys ex s) = ncells s"
  "target (relisted a ys ex s) = target s"
  "targetStack (relisted a ys ex s) = targetStack s"
  "shouldObserve (relisted a ys ex s) = shouldObserve s"
  "world (relisted a ys ex s) = world s"
  "length (objs (relisted a ys ex s)) = length (objs s) + length ex"
  by (simp_all add: relisted_def)

lemma arr_in_heap: "arr (obj_at s a) \<Longrightarrow> a < length (objs s)"
  by (simp add: obj_at_def dead_obj_def split: if_splits)

lemma obj_at_relisted:
  "a < length (objs s) \<Longrightarrow> b < length (objs s) \<Longrightarrow>
   obj_at (relisted a ys ex s) b = (if b = a then (obj_at s a)\<lparr>elems := ys\<rparr> else obj_at s b)"
  by (simp add: relisted_def obj_at_def nth_append)

lemma obj_at_relisted_new:
  "length (objs s) \<le> b \<Longrightarrow>
   obj_at (relisted a ys ex s) b =
     (if b - length (objs s) < length ex then ex ! (b - length (objs s)) else dead_obj)"
  by (auto simp add: relisted_def obj_at_def nth_append)


lemma marker_relisted:
  "a < length (objs s) \<Longrightarrow> b < length (objs s) \<Longrightarrow> marker (relisted a ys ex s) b = marker s b"
  by (simp add: marker_def ob_marker_def obj_at_relisted)


lemma relisted_same:
  "a < length (objs s) \<Longrightarrow> relisted a (elems (obj_at s a)) [] s = s"
  by (simp add: relisted_def obj_at_def)

lemma put_elems_relisted:
  "put_obj a ((obj_at s a)\<lparr>elems := ys\<rparr>) s = relisted a ys [] s"
  by (simp add: relisted_def put_obj_def)



lemma filter_update_same:
  "a < length xs \<Longrightarrow> P x = P (xs ! a) \<Longrightarrow>
   length (filter P (xs[a := x])) = length (filter P xs)"
proof (induction xs arbitrary: a)
  case Nil
  then show ?case by simp
next
  case (Cons y xs)
  then show ?case by (cases a) simp_all
qed

lemma unmarked_relisted:
  assumes "a < length (objs s)"
  shows "unmarked (relisted a ys ex s) \<le> unmarked s + length ex"
proof -
  have "ob_marker ((obj_at s a)\<lparr>elems := ys\<rparr>) = ob_marker (objs s ! a)"
    using assms by (simp add: ob_marker_def obj_at_def)
  then have "length (filter (\<lambda>ob. ob_marker ob = None) ((objs s)[a := (obj_at s a)\<lparr>elems := ys\<rparr>])) =
      length (filter (\<lambda>ob. ob_marker ob = None) (objs s))"
    using assms by (intro filter_update_same) simp_all
  then show ?thesis
    by (simp add: unmarked_def relisted_def)
qed

lemma plain_heap_relisted:
  assumes p: "plain_heap s" and a: "a < length (objs s)" and m: "marker s a \<noteq> None"
    and ex: "list_all data_only ex"
  shows "plain_heap (relisted a ys ex s)"
  unfolding plain_heap_iff
proof
  fix b
  show "marker (relisted a ys ex s) b \<noteq> None \<or> data_only (obj_at (relisted a ys ex s) b)"
  proof (cases "b < length (objs s)")
    case True
    from p have "marker s b \<noteq> None \<or> data_only (obj_at s b)"
      by (simp add: plain_heap_iff)
    with True a m show ?thesis
      by (cases "b = a") (simp_all add: marker_relisted obj_at_relisted)
  next
    case False
    then have "data_only (obj_at (relisted a ys ex s) b)"
      using ex by (simp add: obj_at_relisted_new list_all_length)
    then show ?thesis ..
  qed
qed

lemma observeArray_args_eq:
  "observeArray_args obs items s = observe_each obs items s"
proof -
  have "i + k = length items \<Longrightarrow>
      observeArray_loop obs (\<lambda>i t. if i < length items then items ! i else Undefined) i k s =
      observe_each obs (drop i items) s" for i k
  proof (induction k arbitrary: i s)
    case 0
    then show ?case by simp
  next
    case (Suc k)
    then have i: "i < length items" by simp
    then have d: "drop i items = items ! i # drop (Suc i) items"
      by (simp add: Cons_nth_drop_Suc)
    from Suc.prems have "Suc i + k = length items" by simp
    note Suc.IH [OF this]
    then show ?case
      using i by (simp add: d split_def)
  qed
  from this [of 0 "length items"] show ?thesis
    by (simp add: observeArray_args_def)
qed

lemma original_arr:
  assumes "arr (obj_at s a)"
  shows "\<exists>r ys ex. original env m a args s = Ret (r, relisted a ys ex s) \<and>
           (ex = [] \<or> (\<exists>zs. set zs \<subseteq> set (elems (obj_at s a)) \<and> ex = [array_object zs]))"
proof -
  from assms have a: "a < length (objs s)" by (rule arr_in_heap)
  note s = relisted_same [OF a, symmetric]
  show ?thesis
  proof (cases m)
    case Push
    then show ?thesis using assms by (simp add: original_def Let_def put_elems_relisted) blast
  next
    case Pop
    then show ?thesis
      using assms s by (simp add: original_def Let_def put_elems_relisted) blast
  next
    case Shift
    then show ?thesis
      using assms s by (simp add: original_def Let_def put_elems_relisted) blast
  next
    case Unshift
    then show ?thesis using assms by (simp add: original_def Let_def put_elems_relisted) blast
  next
    case Splice
    obtain start dc where sd: "splice_range env args (length (elems (obj_at s a))) = (start, dc)"
      by (cases "splice_range env args (length (elems (obj_at s a)))")
    let ?ys = "take start (elems (obj_at s a)) @ drop 2 args @ drop (start + dc) (elems (obj_at s a))"
    let ?zs = "take dc (drop start (elems (obj_at s a)))"
    have "original env m a args s = Ret (Ref (length (objs s)), relisted a ?ys [array_object ?zs] s)"
      using assms Splice sd
      by (simp add: original_def Let_def put_elems_relisted new_array_def relisted_def
          array_object_def)
    moreover have "set ?zs \<subseteq> set (elems (obj_at s a))"
      by (meson set_take_subset set_drop_subset subset_trans)
    ultimately show ?thesis by blast
  next
    case Sort
    then show ?thesis using assms by (simp add: original_def Let_def put_elems_relisted) blast
  next
    case Reverse
    then show ?thesis using assms by (simp add: original_def Let_def put_elems_relisted) blast
  qed
qed


lemma mutator_eq:
  assumes a: "arr (obj_at s a)" and m: "marker s a = Some o1"
  shows "mutator obs da env m a args s =
     seq (original env m a args s)
       (\<lambda>(result, s1).
          seq (observe_each obs
                 (if m = Push \<or> m = Unshift then args else if m = Splice then drop 2 args else [])
                 s1)
            (\<lambda>s3. Ret (result, notify env (ob_dep (observers s3 o1)) s3)))"
proof -
  from a have h: "a < length (objs s)" by (rule arr_in_heap)
  from original_arr [OF a, of env m args] obtain r ys ex where
    o: "original env m a args s = Ret (r, relisted a ys ex s)"
    by (elim exE conjE)
  have "marker (relisted a ys ex s) a = Some o1"
    using m h by (simp add: marker_relisted)
  from marker_SomeD [OF this] obtain e c w where
    "own (relisted a ys ex s) a (Name ''__ob__'') = Some (Data (ObRef o1) e c w)"
    by (elim exE)
  then have g: "get_member da env a (Name ''__ob__'') (relisted a ys ex s) =
      Ret (ObRef o1, relisted a ys ex s)"
    by simp
  show ?thesis
    unfolding mutator_def o
    by (cases m) (simp_all add: g observeArray_args_eq)
qed

lemma observe_each_good:
  assumes g: "good env n obs"
  shows "list_all (\<lambda>v. \<not> is_observer v) items \<Longrightarrow> plain_heap s \<Longrightarrow> unmarked s < n \<Longrightarrow>
         \<exists>s'. observe_each obs items s = Ret s' \<and> frame {} s s' \<and> plain_heap s'"
proof (induction items arbitrary: s)
  case Nil
  then show ?case by simp
next
  case (Cons x xs)
  from Cons.prems(1) have x: "\<not> is_observer x" and xs: "list_all (\<lambda>v. \<not> is_observer v) xs"
    by simp_all
  from good_Ret [OF g Cons.prems(2,3) x] obtain r s1 where
    r: "obs x s = Ret (r, s1)" and f1: "frame {} s s1" and p1: "plain_heap s1"
    by (elim exE conjE)
  have u1: "unmarked s1 < n"
    using frame_unmarked_le [OF f1] Cons.prems(3) by simp
  from Cons.IH [OF xs p1 u1] obtain s' where
    "observe_each obs xs s1 = Ret s'" "frame {} s1 s'" "plain_heap s'"
    by (elim exE conjE)
  then have "observe_each obs (x # xs) s = Ret s'" "frame {} s s'" "plain_heap s'"
    using r frame_trans [OF f1] by simp_all
  then show ?case
    by (intro exI conjI)
qed




lemma objs_dispatch:
  "(\<And>w t. objs (update env w t) = objs t) \<Longrightarrow> objs (dispatch env ws s) = objs s"
  by (induction ws arbitrary: s) (simp_all add: external_def emit_def)

lemma obj_at_notify:
  "(\<And>w t. objs (update env w t) = objs t) \<Longrightarrow> obj_at (notify env d s) = obj_at s"
  by (simp add: notify_def obj_at_def fun_eq_iff objs_dispatch emit_def)

lemma data_only_array_object:
  "list_all (\<lambda>v. \<not> is_observer v) zs \<Longrightarrow> data_only (array_object zs)"
  by (simp add: data_only_def array_object_def)

lemma mutator_plain:
  assumes a: "arr (obj_at s a)" and m: "marker s a = Some o1" and o1: "o1 < nobs s"
    and p: "plain_heap s" and u: "Suc (unmarked s) < n"
    and items: "list_all (\<lambda>v. \<not> is_observer v) args"
    and o: "original env m a args s = Ret (result, relisted a ys ex s)"
    and ex: "list_all data_only ex" "length ex \<le> 1"
  shows "\<exists>s3. observe_each (\<lambda>x. observe n env x False)
                 (if m = Push \<or> m = Unshift then args else if m = Splice then drop 2 args else [])
                 (relisted a ys ex s) = Ret s3 \<and>
           mutator (\<lambda>x. observe n env x False) da env m a args s =
             Ret (result, notify env (ob_dep (observers s o1)) s3) \<and>
           frame {} (relisted a ys ex s) s3 \<and> plain_heap s3"
proof -
  let ?items = "if m = Push \<or> m = Unshift then args else if m = Splice then drop 2 args else []"
  let ?s1 = "relisted a ys ex s"
  from a have h: "a < length (objs s)" by (rule arr_in_heap)
  from m have m': "marker s a \<noteq> None" by simp
  have p1: "plain_heap ?s1"
    using p h m' ex(1) by (rule plain_heap_relisted)
  have u1: "unmarked ?s1 < n"
    using unmarked_relisted [OF h, of ys ex] ex(2) u by simp
  have "set (drop 2 args) \<subseteq> set args"
    by (rule set_drop_subset)
  then have it: "list_all (\<lambda>v. \<not> is_observer v) ?items"
    using items by (auto simp: list_all_iff)
  from observe_each_good [OF observe_good [where env = env] it p1 u1] obtain s3 where
    e: "observe_each (\<lambda>x. observe n env x False) ?items ?s1 = Ret s3"
    and f: "frame {} ?s1 s3" and p3: "plain_heap s3"
    by (elim exE conjE)
  from f o1 have "observers s3 o1 = observers s o1"
    by (simp add: frame_def)
  then have "mutator (\<lambda>x. observe n env x False) da env m a args s =
      Ret (result, notify env (ob_dep (observers s o1)) s3)"
    unfolding mutator_eq [OF a m] o using e by simp
  with e f p3 show ?thesis
    by (intro exI conjI)
qed

text \<open>
  Claim C6. Let \<open>a\<close> be an observed list: an array whose \<^verbatim>\<open>__ob__\<close> holds the observer \<open>o1\<close>.
  The interceptor of each of the seven methods performs the original operation first, then
  observes exactly the inserted arguments, one after the other (all the arguments of
  \<^verbatim>\<open>push\<close> and \<^verbatim>\<open>unshift\<close>, the arguments after the first two of \<^verbatim>\<open>splice\<close>, none for the others),
  then calls \<^verbatim>\<open>notify\<close> once on the dependency node of the list's observer, and returns the result of
  the original operation. This holds for every \<^verbatim>\<open>observe\<close>. With the \<^verbatim>\<open>observe\<close> of the source, on
  a heap of plain data and with enough fuel, the call returns: the result is the original's, the
  list holds what the original operation left in it, and exactly one notification is fired, on
  the dependency node of the list.
\<close>

theorem mutator_observed_list:
  assumes "arr (obj_at s a)" and "marker s a = Some o1"
  shows "mutator obs da env m a args s =
           seq (original env m a args s)
             (\<lambda>(result, s1).
                seq (observe_each obs
                       (if m = Push \<or> m = Unshift then args
                        else if m = Splice then drop 2 args else []) s1)
                  (\<lambda>s3. Ret (result, notify env (ob_dep (observers s3 o1)) s3))) \<and>
         (plain_heap s \<and> Suc (unmarked s) < n \<and> o1 < nobs s \<and>
          list_all (\<lambda>v. \<not> is_observer v) args \<and>
          list_all (\<lambda>v. \<not> is_observer v) (elems (obj_at s a)) \<longrightarrow>
            (\<exists>result s1 s3.
               original env m a args s = Ret (result, s1) \<and>
               observe_each (\<lambda>x. observe n env x False)
                 (if m = Push \<or> m = Unshift then args
                  else if m = Splice then drop 2 args else []) s1 = Ret s3 \<and>
               mutator (\<lambda>x. observe n env x False) da env m a args s =
                 Ret (result, notify env (ob_dep (observers s o1)) s3) \<and>
               elems (obj_at s3 a) = elems (obj_at s1 a) \<and> marker s3 a = Some o1 \<and>
               notifications_of (added s (notify env (ob_dep (observers s o1)) s3)) =
                 [ob_dep (observers s o1)] \<and>
               ((\<forall>w t. objs (update env w t) = objs t) \<longrightarrow>
                  elems (obj_at (notify env (ob_dep (observers s o1)) s3) a) =
                    elems (obj_at s1 a))))"
proof (intro conjI impI)
  show "mutator obs da env m a args s =
      seq (original env m a args s)
        (\<lambda>(result, s1).
           seq (observe_each obs
                  (if m = Push \<or> m = Unshift then args
                   else if m = Splice then drop 2 args else []) s1)
             (\<lambda>s3. Ret (result, notify env (ob_dep (observers s3 o1)) s3)))"
    using assms by (rule mutator_eq)
next
  assume h: "plain_heap s \<and> Suc (unmarked s) < n \<and> o1 < nobs s \<and>
      list_all (\<lambda>v. \<not> is_observer v) args \<and>
      list_all (\<lambda>v. \<not> is_observer v) (elems (obj_at s a))"
  then have p: "plain_heap s" and u: "Suc (unmarked s) < n" and o1: "o1 < nobs s"
    and items: "list_all (\<lambda>v. \<not> is_observer v) args"
    and xs: "list_all (\<lambda>v. \<not> is_observer v) (elems (obj_at s a))"
    by simp_all
  from assms(1) have a: "a < length (objs s)" by (rule arr_in_heap)
  from original_arr [OF assms(1), of env m args] obtain r ys ex where
    o: "original env m a args s = Ret (r, relisted a ys ex s)"
    and e: "ex = [] \<or> (\<exists>zs. set zs \<subseteq> set (elems (obj_at s a)) \<and> ex = [array_object zs])"
    by (elim exE conjE)
  have ex: "list_all data_only ex \<and> length ex \<le> 1"
  proof (cases "ex = []")
    case True
    then show ?thesis by simp
  next
    case False
    with e obtain zs where zs: "set zs \<subseteq> set (elems (obj_at s a))" "ex = [array_object zs]"
      by blast
    from zs(1) xs have "list_all (\<lambda>v. \<not> is_observer v) zs"
      unfolding list_all_iff by blast
    then show ?thesis
      using zs(2) by (simp add: data_only_array_object)
  qed
  then have ex: "list_all data_only ex" "length ex \<le> 1"
    by simp_all
  from mutator_plain [OF assms o1 p u items o ex, where da = da] obtain s3 where
    1: "observe_each (\<lambda>x. observe n env x False)
          (if m = Push \<or> m = Unshift then args else if m = Splice then drop 2 args else [])
          (relisted a ys ex s) = Ret s3"
    and 2: "mutator (\<lambda>x. observe n env x False) da env m a args s =
          Ret (r, notify env (ob_dep (observers s o1)) s3)"
    and f: "frame {} (relisted a ys ex s) s3"
    by (elim exE conjE)
  have m1: "marker (relisted a ys ex s) a = Some o1"
    using assms(2) a by (simp add: marker_relisted)
  have 3: "elems (obj_at s3 a) = elems (obj_at (relisted a ys ex s) a)"
    using f by (rule frame_elems)
  have 4: "marker s3 a = Some o1"
    using frame_marker [OF f, of a] m1 by simp
  have "trace s3 = trace s"
    using f by (simp add: frame_def)
  then have 5: "notifications_of (added s (notify env (ob_dep (observers s o1)) s3)) =
      [ob_dep (observers s o1)]"
    by (simp add: trace_notify)
  have 6: "(\<forall>w t. objs (update env w t) = objs t) \<longrightarrow>
      elems (obj_at (notify env (ob_dep (observers s o1)) s3) a) =
      elems (obj_at (relisted a ys ex s) a)"
    using 3 by (simp add: obj_at_notify)
  from o 1 2 3 4 5 6 show "\<exists>result s1 s3.
      original env m a args s = Ret (result, s1) \<and>
      observe_each (\<lambda>x. observe n env x False)
        (if m = Push \<or> m = Unshift then args
         else if m = Splice then drop 2 args else []) s1 = Ret s3 \<and>
      mutator (\<lambda>x. observe n env x False) da env m a args s =
        Ret (result, notify env (ob_dep (observers s o1)) s3) \<and>
      elems (obj_at s3 a) = elems (obj_at s1 a) \<and> marker s3 a = Some o1 \<and>
      notifications_of (added s (notify env (ob_dep (observers s o1)) s3)) =
        [ob_dep (observers s o1)] \<and>
      ((\<forall>w t. objs (update env w t) = objs t) \<longrightarrow>
         elems (obj_at (notify env (ob_dep (observers s o1)) s3) a) =
           elems (obj_at s1 a))"
    by (intro exI conjI)
qed

theorem mutator_observed_list_witness:
  "arr (obj_at list_and_two 0) \<and> marker list_and_two 0 = Some 0 \<and>
   plain_heap list_and_two \<and> Suc (unmarked list_and_two) < 4 \<and> 0 < nobs list_and_two \<and>
   ob_dep (observers list_and_two 0) = 0 \<and> elems (obj_at list_and_two 0) = [Num 1] \<and>
   marker list_and_two 1 = None \<and> marker list_and_two 2 = None \<and>
   (case mutator (\<lambda>x. observe 4 dev_env x False) (dependArray 4 dev_env) dev_env Push 0
           [Ref 1, Ref 2] list_and_two of
      Ret (r, s') \<Rightarrow>
        r = Num 3 \<and> elems (obj_at s' 0) = [Num 1, Ref 1, Ref 2] \<and>
        notifications_of (added list_and_two s') = [0] \<and>
        marker s' 1 = Some 1 \<and> marker s' 2 = Some 2 \<and>
        (case put_member (\<lambda>x. observe 4 dev_env x False) (dependArray 4 dev_env) dev_env 2
                (Name ''y'') (Num 9) s' of
           Ret s2 \<Rightarrow> notifications_of (added s' s2) = [4]
         | _ \<Rightarrow> False)
    | _ \<Rightarrow> False)"
proof -
  have a: "arr (obj_at list_and_two 0)"
    by code_simp
  have m: "marker list_and_two 0 = Some 0"
    by code_simp
  have p: "plain_heap list_and_two"
    by code_simp
  have u: "Suc (unmarked list_and_two) < 4"
    by code_simp
  have n: "0 < nobs list_and_two"
    by code_simp
  have d: "ob_dep (observers list_and_two 0) = 0"
    by code_simp
  have e: "elems (obj_at list_and_two 0) = [Num 1]"
    by code_simp
  have m1: "marker list_and_two 1 = None" "marker list_and_two 2 = None"
    by code_simp+
  have o: "original dev_env Push 0 [Ref 1, Ref 2] list_and_two =
      Ret (Num 3, final (original dev_env Push 0 [Ref 1, Ref 2] list_and_two) list_and_two)"
  proof -
    have "case original dev_env Push 0 [Ref 1, Ref 2] list_and_two of
        Ret (r, s') \<Rightarrow> r = Num 3 | _ \<Rightarrow> False"
      by code_simp
    then show ?thesis
      by (rule Ret_final)
  qed
  have k: "case mutator (\<lambda>x. observe 4 dev_env x False) (dependArray 4 dev_env) dev_env Push 0
           [Ref 1, Ref 2] list_and_two of
      Ret (r, s') \<Rightarrow>
        elems (obj_at s' 0) = [Num 1, Ref 1, Ref 2] \<and>
        marker s' 1 = Some 1 \<and> marker s' 2 = Some 2 \<and>
        (case put_member (\<lambda>x. observe 4 dev_env x False) (dependArray 4 dev_env) dev_env 2
                (Name ''y'') (Num 9) s' of
           Ret s2 \<Rightarrow> notifications_of (added s' s2) = [4]
         | _ \<Rightarrow> False)
    | _ \<Rightarrow> False"
    by code_simp
  have h: "plain_heap list_and_two \<and> Suc (unmarked list_and_two) < 4 \<and> 0 < nobs list_and_two \<and>
      list_all (\<lambda>v. \<not> is_observer v) [Ref 1, Ref 2] \<and>
      list_all (\<lambda>v. \<not> is_observer v) (elems (obj_at list_and_two 0))"
    using p u n e by simp
  note mutator_observed_list [OF a m, where env = dev_env and m = Push and args = "[Ref 1, Ref 2]"
      and n = 4 and da = "dependArray 4 dev_env" and obs = "\<lambda>x. observe 4 dev_env x False"]
  from this [THEN conjunct2, THEN mp, OF h]
  obtain result s1 s3 where
    1: "original dev_env Push 0 [Ref 1, Ref 2] list_and_two = Ret (result, s1)"
    and 2: "mutator (\<lambda>x. observe 4 dev_env x False) (dependArray 4 dev_env) dev_env Push 0
          [Ref 1, Ref 2] list_and_two =
        Ret (result, notify dev_env (ob_dep (observers list_and_two 0)) s3)"
    and 3: "notifications_of
          (added list_and_two (notify dev_env (ob_dep (observers list_and_two 0)) s3)) =
        [ob_dep (observers list_and_two 0)]"
    by (elim conjE exE)
  from 1 o have r: "result = Num 3"
    by simp
  show ?thesis
    using a m p u n d e m1 k 3 unfolding 2 r by simp
qed


section \<open>\<^verbatim>\<open>set\<close> beyond the length of a list\<close>




end
